theory Spec2Isabelle
  imports Main
begin

section \<open>Tokens of the document engine\<close>

text \<open>
  The pass of \<^verbatim>\<open>markdown-it-task-lists.ts\<close> works on the flat token array of markdown-it.
  A token is modelled with the five fields the pass reads or writes: \<^verbatim>\<open>type\<close>, \<^verbatim>\<open>tag\<close>,
  \<^verbatim>\<open>attrs\<close>, \<^verbatim>\<open>content\<close> and \<^verbatim>\<open>children\<close> (\<^verbatim>\<open>null\<close> is \<open>None\<close>). An absent attribute array
  and an empty one are both the empty list. Strings are lists of characters, so that
  \<^verbatim>\<open>s.slice(3)\<close> is \<open>drop 3 s\<close> and \<^verbatim>\<open>s.indexOf(p) === 0\<close> is \<open>take (length p) s = p\<close>.
\<close>

datatype token =
  Token (ttype: string) (tag: string) (attrs: "(string \<times> string) list")
        (content: string) (children: "token list option")

definition set_content :: "string \<Rightarrow> token \<Rightarrow> token" where
  "set_content s t = Token (ttype t) (tag t) (attrs t) s (children t)"

definition set_children :: "token list option \<Rightarrow> token \<Rightarrow> token" where
  "set_children cs t = Token (ttype t) (tag t) (attrs t) (content t) cs"

definition set_attrs :: "(string \<times> string) list \<Rightarrow> token \<Rightarrow> token" where
  "set_attrs as t = Token (ttype t) (tag t) as (content t) (children t)"

text \<open>
  Modelled from the spec: \<^verbatim>\<open>Token.attrJoin\<close> belongs to the document engine and is not in
  the sources. The data model describes it as a join that appends the value to the existing
  value, separated by a space, and leaves duplicates to the caller; an attribute that is not
  there yet is pushed at the end.
\<close>

fun attrJoin_list :: "string \<Rightarrow> string \<Rightarrow> (string \<times> string) list \<Rightarrow> (string \<times> string) list" where
  "attrJoin_list name v [] = [(name, v)]"
| "attrJoin_list name v ((n, x) # as) =
     (if n = name then (n, x @ '' '' @ v) # as else (n, x) # attrJoin_list name v as)"

definition attrJoin :: "string \<Rightarrow> string \<Rightarrow> token \<Rightarrow> token" where
  "attrJoin name v t = set_attrs (attrJoin_list name v (attrs t)) t"

section \<open>Options, module state and class names\<close>

text \<open>
  \<^verbatim>\<open>TaskListOptions\<close>: every key is optional (\<open>None\<close> is an absent key). The interface
  declares seven keys. The README documents an eighth, \<^verbatim>\<open>tiptapCompatible\<close>; the engine's
  \<^verbatim>\<open>use\<close> passes any object through, so the key can be present at run time, and it is part
  of the record although nothing in the plugin reads it.
\<close>

record TaskListOptions =
  enabled :: "bool option"
  label :: "bool option"
  labelAfter :: "bool option"
  listClass :: "string option"
  itemClass :: "string option"
  checkboxClass :: "string option"
  labelClass :: "string option"
  tiptapCompatible :: "bool option"

text \<open>The three module-level \<^verbatim>\<open>let\<close> variables, shared by every registration.\<close>

record globals =
  disableCheckboxes :: bool
  useLabelWrapper :: bool
  useLabelAfter :: bool

definition initial_globals :: globals where
  "initial_globals = \<lparr>disableCheckboxes = True, useLabelWrapper = True, useLabelAfter = False\<rparr>"

text \<open>The \<^verbatim>\<open>classes\<close> object, a constant of each call of \<^verbatim>\<open>taskLists\<close>.\<close>

record classes =
  cls_list :: string
  cls_item :: string
  cls_checkbox :: string
  cls_label :: string

definition defaultClasses :: classes where
  "defaultClasses = \<lparr>cls_list = ''contains-task-list'', cls_item = ''task-list-item'',
     cls_checkbox = ''task-list-item-checkbox'', cls_label = ''task-list-item-label''\<rparr>"

text \<open>\<^verbatim>\<open>!x\<close> on an optional boolean: \<^verbatim>\<open>undefined\<close> is falsy.\<close>

definition truthy :: "bool option \<Rightarrow> bool" where
  "truthy b = (case b of None \<Rightarrow> False | Some v \<Rightarrow> v)"

text \<open>\<^verbatim>\<open>options?.k ?? d\<close>.\<close>

definition nullish :: "TaskListOptions option \<Rightarrow> (TaskListOptions \<Rightarrow> string option) \<Rightarrow> string \<Rightarrow> string" where
  "nullish options k d = (case options of None \<Rightarrow> d | Some opts \<Rightarrow> (case k opts of None \<Rightarrow> d | Some v \<Rightarrow> v))"

text \<open>
  The registration \<^verbatim>\<open>taskLists(md, options)\<close>: it overwrites the module variables when an
  options object is given and returns the class names its closure captures. The new module
  state is the first component.
\<close>

definition taskLists :: "globals \<Rightarrow> TaskListOptions option \<Rightarrow> globals \<times> classes" where
  "taskLists g options =
     ((case options of
         None \<Rightarrow> g
       | Some opts \<Rightarrow> \<lparr>disableCheckboxes = \<not> truthy (enabled opts),
                       useLabelWrapper = truthy (label opts),
                       useLabelAfter = truthy (labelAfter opts)\<rparr>),
      \<lparr>cls_list = nullish options listClass (cls_list defaultClasses),
       cls_item = nullish options itemClass (cls_item defaultClasses),
       cls_checkbox = nullish options checkboxClass (cls_checkbox defaultClasses),
       cls_label = nullish options labelClass (cls_label defaultClasses)\<rparr>)"

section \<open>Token predicates\<close>

definition startsWithTodoMarkdown :: "string \<Rightarrow> bool" where
  "startsWithTodoMarkdown str =
     (take 4 str = ''[ ] '' \<or> take 4 str = ''[x] '' \<or> take 4 str = ''[X] '')"

definition isListItem :: "token \<Rightarrow> bool" where
  "isListItem t = (ttype t = ''list_item_open'')"

definition isParagraph :: "token \<Rightarrow> bool" where
  "isParagraph t = (ttype t = ''paragraph_open'')"

definition isInline :: "token \<Rightarrow> bool" where
  "isInline t = (ttype t = ''inline'')"

definition hasOpenOrCloseTag :: "token \<Rightarrow> string \<Rightarrow> bool" where
  "hasOpenOrCloseTag t tg =
     (tag t = tg \<and> (ttype t = ''paragraph_open'' \<or> ttype t = ''paragraph_close''))"

section \<open>The checkbox markup\<close>

text \<open>Decimal notation of an integer, as a template string prints it.\<close>

fun nat_to_string :: "nat \<Rightarrow> string" where
  "nat_to_string n =
     (if n < 10 then [''0123456789'' ! n]
      else nat_to_string (n div 10) @ [''0123456789'' ! (n mod 10)])"

declare nat_to_string.simps [simp del]

definition int_to_string :: "int \<Rightarrow> string" where
  "int_to_string i = (if i < 0 then CHR ''-'' # nat_to_string (nat (- i)) else nat_to_string (nat i))"

text \<open>
  The identifier \<^verbatim>\<open>task-item-N\<close>. \<open>N\<close> is the value of
  \<^verbatim>\<open>Math.ceil(Math.random() * (10000 * 1000) - 1000)\<close>, an integer between \<open>-1000\<close> and
  \<open>9999000\<close> that the pass does not control: it is a parameter of the model.
\<close>

definition task_id :: "int \<Rightarrow> string" where
  "task_id N = ''task-item-'' @ int_to_string N"

definition checked_marker :: "string \<Rightarrow> bool" where
  "checked_marker str = (take 3 str = ''[x]'' \<or> take 3 str = ''[X]'')"

text \<open>The content of the \<^verbatim>\<open>html_inline\<close> token, one template per branch as in the source.\<close>

definition checkbox_content :: "globals \<Rightarrow> classes \<Rightarrow> bool \<Rightarrow> int \<Rightarrow> string" where
  \<open>checkbox_content g cls checked N =
     (let disabledAttr = (if disableCheckboxes g then '' disabled '' else '''') in
      if useLabelWrapper g then
        (let id = task_id N;
             label = ''<label class="'' @ cls_label cls @ ''" for="'' @ id @ ''">'';
             closeLabel = ''</label>''
         in if useLabelAfter g
            then ''<input class="'' @ cls_checkbox cls @ ''" '' @ disabledAttr
                   @ '' type="checkbox" '' @ (if checked then ''checked="" '' else '''')
                   @ '' id="'' @ id @ ''">'' @ label @ closeLabel
            else label @ ''<input class="'' @ cls_checkbox cls @ ''" '' @ disabledAttr
                   @ '' type="checkbox" '' @ (if checked then ''checked="" '' else '''')
                   @ '' id="'' @ id @ ''">'' @ closeLabel)
      else ''<input class="'' @ cls_checkbox cls @ ''" '' @ disabledAttr
             @ '' type="checkbox" '' @ (if checked then ''checked="" '' else '''') @ ''>'')\<close>

text \<open>\<^verbatim>\<open>new state.Token('html_inline', '', 0)\<close> with its content set.\<close>

definition make_checkbox :: "string \<Rightarrow> token" where
  "make_checkbox html = Token ''html_inline'' '''' [] html None"

section \<open>The pass\<close>

text \<open>
  The backward searches \<^verbatim>\<open>while (current >= 0 && tokens[current].type !== ty) current--\<close>:
  \<open>None\<close> is \<^verbatim>\<open>current = -1\<close>.
\<close>

fun find_back :: "string \<Rightarrow> token list \<Rightarrow> nat \<Rightarrow> nat option" where
  "find_back ty ts 0 = (if ttype (ts ! 0) = ty then Some 0 else None)"
| "find_back ty ts (Suc n) = (if ttype (ts ! Suc n) = ty then Some (Suc n) else find_back ty ts n)"

text \<open>The class propagation of lines 249 to 268, from the index \<open>k\<close> of the matched token.\<close>

definition propagate :: "classes \<Rightarrow> nat \<Rightarrow> token list \<Rightarrow> token list" where
  "propagate cls k ts =
     (case find_back ''list_item_open'' ts k of
        None \<Rightarrow> ts
      | Some c \<Rightarrow>
          (let ts1 = ts[c := attrJoin ''class'' (cls_item cls) (ts ! c)] in
           case find_back ''bullet_list_open'' ts1 c of
             None \<Rightarrow> ts1
           | Some d \<Rightarrow> ts1[d := attrJoin ''class'' (cls_list cls) (ts1 ! d)]))"

text \<open>
  The state of one pass: the token array and the number of random integers drawn so far;
  \<open>rnd n\<close> is the \<open>n\<close>-th integer drawn. \<open>transform\<close> is the body of the innermost loop after
  the marker test (lines 224 to 269), for a token at \<open>k\<close> whose content starts with a marker.
\<close>

type_synonym pass_state = "token list \<times> nat"

definition transform :: "globals \<Rightarrow> classes \<Rightarrow> (nat \<Rightarrow> int) \<Rightarrow> nat \<Rightarrow> pass_state \<Rightarrow> pass_state" where
  "transform g cls rnd k st =
     (let ts = fst st; n = snd st; tok = ts ! k; checked = checked_marker (content tok) in
      case children tok of
        None \<Rightarrow> st
      | Some [] \<Rightarrow> st
      | Some (c # cs) \<Rightarrow>
          (let c' = set_content (drop 3 (content c)) c;
               checkbox = make_checkbox (checkbox_content g cls checked (rnd n));
               tok' = set_content (drop 3 (content tok)) (set_children (Some (checkbox # c' # cs)) tok)
           in (propagate cls k (ts[k := tok']), if useLabelWrapper g then Suc n else n)))"

lemma length_propagate [simp]: "length (propagate cls k ts) = length ts"
  by (simp add: propagate_def Let_def split: option.splits)

lemma length_transform [simp]: "length (fst (transform g cls rnd k st)) = length (fst st)"
  by (simp add: transform_def Let_def split: option.splits list.splits)

text \<open>The innermost loop, over \<open>k\<close>.\<close>

function k_loop :: "globals \<Rightarrow> classes \<Rightarrow> (nat \<Rightarrow> int) \<Rightarrow> nat \<Rightarrow> pass_state \<Rightarrow> pass_state" where
  "k_loop g cls rnd k st =
     (if k < length (fst st) then
        (if hasOpenOrCloseTag (fst st ! k) ''p'' then st
         else if \<not> isInline (fst st ! k) then k_loop g cls rnd (k + 1) st
         else if \<not> startsWithTodoMarkdown (content (fst st ! k)) then k_loop g cls rnd (k + 1) st
         else k_loop g cls rnd (k + 1) (transform g cls rnd k st))
      else st)"
  by pat_completeness auto
termination
  by (relation "measure (\<lambda>(g, cls, rnd, k, st). length (fst st) - k)") auto

declare k_loop.simps [simp del]

lemma length_k_loop [simp]: "length (fst (k_loop g cls rnd k st)) = length (fst st)"
  by (induction g cls rnd k st rule: k_loop.induct) (subst k_loop.simps, simp)

text \<open>The middle loop, over \<open>j\<close>, from the token after a list item's open token.\<close>

function j_loop :: "globals \<Rightarrow> classes \<Rightarrow> (nat \<Rightarrow> int) \<Rightarrow> nat \<Rightarrow> pass_state \<Rightarrow> pass_state" where
  "j_loop g cls rnd j st =
     (if j < length (fst st) then
        (if ttype (fst st ! j) = ''list_item_close'' then st
         else if \<not> isParagraph (fst st ! j) then j_loop g cls rnd (j + 1) st
         else j_loop g cls rnd (j + 1) (k_loop g cls rnd (j + 1) st))
      else st)"
  by pat_completeness auto
termination
  by (relation "measure (\<lambda>(g, cls, rnd, j, st). length (fst st) - j)") auto

declare j_loop.simps [simp del]

lemma length_j_loop [simp]: "length (fst (j_loop g cls rnd j st)) = length (fst st)"
  by (induction g cls rnd j st rule: j_loop.induct) (subst j_loop.simps, simp)

text \<open>The outer loop, over \<open>i\<close>, with the flag \<^verbatim>\<open>insideList\<close>.\<close>

function i_loop :: "globals \<Rightarrow> classes \<Rightarrow> (nat \<Rightarrow> int) \<Rightarrow> nat \<Rightarrow> bool \<Rightarrow> pass_state \<Rightarrow> pass_state" where
  "i_loop g cls rnd i insideList st =
     (if i < length (fst st) then
        (if ttype (fst st ! i) = ''bullet_list_open'' then i_loop g cls rnd (i + 1) True st
         else if ttype (fst st ! i) = ''bullet_list_close'' then i_loop g cls rnd (i + 1) False st
         else if \<not> insideList then i_loop g cls rnd (i + 1) insideList st
         else if \<not> isListItem (fst st ! i) then i_loop g cls rnd (i + 1) insideList st
         else i_loop g cls rnd (i + 1) insideList (j_loop g cls rnd (i + 1) st))
      else st)"
  by pat_completeness auto
termination
  by (relation "measure (\<lambda>(g, cls, rnd, i, b, st). length (fst st) - i)") auto

declare i_loop.simps [simp del]

lemma length_i_loop [simp]: "length (fst (i_loop g cls rnd i b st)) = length (fst st)"
  by (induction g cls rnd i b st rule: i_loop.induct) (subst i_loop.simps, simp)

text \<open>
  The rule registered as \<^verbatim>\<open>github-task-lists\<close>: it reads the module variables \<open>g\<close> as they
  are when the pass runs, and the class names \<open>cls\<close> of its own registration.
\<close>

definition github_task_lists :: "globals \<Rightarrow> classes \<Rightarrow> (nat \<Rightarrow> int) \<Rightarrow> token list \<Rightarrow> token list" where
  "github_task_lists g cls rnd tokens = fst (i_loop g cls rnd 0 False (tokens, 0))"

section \<open>The scanner's flag\<close>

text \<open>
  The value of \<^verbatim>\<open>insideList\<close> after the outer loop has scanned the tokens \<open>ts\<close>, starting
  from the value \<open>b\<close>: the loop sets it on \<^verbatim>\<open>bullet_list_open\<close> and clears it on
  \<^verbatim>\<open>bullet_list_close\<close>, without counting the nesting depth.
\<close>

fun insideList_after :: "bool \<Rightarrow> token list \<Rightarrow> bool" where
  "insideList_after b [] = b"
| "insideList_after b (t # ts) =
     insideList_after (if ttype t = ''bullet_list_open'' then True
                       else if ttype t = ''bullet_list_close'' then False else b) ts"

section \<open>What one pass may do to a token\<close>

text \<open>
  Relative to the token \<open>t0\<close> it started from, a token \<open>t\<close> of the array is either \<open>retained\<close>
  (same type, tag, content and children; its attributes may differ only when it is a
  \<^verbatim>\<open>list_item_open\<close> or a \<^verbatim>\<open>bullet_list_open\<close>), or \<open>injected\<close>: an inline token whose content
  started with a marker, with three characters sliced off its content and off its first
  child's content, and one new \<^verbatim>\<open>html_inline\<close> leaf in front of its children.
\<close>

definition injected :: "globals \<Rightarrow> classes \<Rightarrow> (nat \<Rightarrow> int) \<Rightarrow> token \<Rightarrow> token \<Rightarrow> bool" where
  "injected g cls rnd t0 t \<longleftrightarrow>
     ttype t0 = ''inline'' \<and> startsWithTodoMarkdown (content t0) \<and>
     (\<exists>c cs n. children t0 = Some (c # cs) \<and>
        t = Token (ttype t0) (tag t0) (attrs t0) (drop 3 (content t0))
              (Some (make_checkbox (checkbox_content g cls (checked_marker (content t0)) (rnd n))
                     # set_content (drop 3 (content c)) c # cs)))"

definition retained :: "token \<Rightarrow> token \<Rightarrow> bool" where
  "retained t0 t \<longleftrightarrow>
     ttype t = ttype t0 \<and> tag t = tag t0 \<and> content t = content t0 \<and> children t = children t0 \<and>
     (attrs t = attrs t0 \<or> ttype t0 = ''list_item_open'' \<or> ttype t0 = ''bullet_list_open'')"

definition evolved :: "globals \<Rightarrow> classes \<Rightarrow> (nat \<Rightarrow> int) \<Rightarrow> token \<Rightarrow> token \<Rightarrow> bool" where
  "evolved g cls rnd t0 t \<longleftrightarrow> retained t0 t \<or> injected g cls rnd t0 t"

definition Inv :: "globals \<Rightarrow> classes \<Rightarrow> (nat \<Rightarrow> int) \<Rightarrow> token list \<Rightarrow> token list \<Rightarrow> bool" where
  "Inv g cls rnd ts0 ts \<longleftrightarrow> list_all2 (evolved g cls rnd) ts0 ts"

section \<open>Sample documents\<close>

text \<open>
  Token arrays as the document engine produces them for small lists, for the concrete
  evaluations below: block tokens carry no content and no children, an inline token carries
  its text and one text child with the same text.
\<close>

definition block_token :: "string \<Rightarrow> string \<Rightarrow> token" where
  "block_token ty tg = Token ty tg [] '''' None"

definition text_token :: "string \<Rightarrow> token" where
  "text_token s = Token ''text'' '''' [] s None"

definition inline_token :: "string \<Rightarrow> token" where
  "inline_token s = Token ''inline'' '''' [] s (Some [text_token s])"

definition ul_open :: token where
  "ul_open = block_token ''bullet_list_open'' ''ul''"

definition ul_close :: token where
  "ul_close = block_token ''bullet_list_close'' ''ul''"

definition li_open :: token where
  "li_open = block_token ''list_item_open'' ''li''"

definition li_close :: token where
  "li_close = block_token ''list_item_close'' ''li''"

definition p_open :: token where
  "p_open = block_token ''paragraph_open'' ''p''"

definition p_close :: token where
  "p_close = block_token ''paragraph_close'' ''p''"

text \<open>\<^verbatim>\<open>- [ ] A\<close>\<close>

definition doc_one_item :: "token list" where
  "doc_one_item = [ul_open, li_open, p_open, inline_token ''[ ] A'', p_close, li_close, ul_close]"

text \<open>\<^verbatim>\<open>- [ ] A\<close>, \<^verbatim>\<open>- [x] B\<close>\<close>

definition doc_two_items :: "token list" where
  "doc_two_items = [ul_open, li_open, p_open, inline_token ''[ ] A'', p_close, li_close,
                    li_open, p_open, inline_token ''[x] B'', p_close, li_close, ul_close]"

text \<open>One item with the two paragraphs \<^verbatim>\<open>A\<close> and \<^verbatim>\<open>[ ] B\<close>.\<close>

definition doc_two_paragraphs :: "token list" where
  "doc_two_paragraphs = [ul_open, li_open, p_open, inline_token ''A'', p_close,
                         p_open, inline_token ''[ ] B'', p_close, li_close, ul_close]"

text \<open>
  The tokens of \<^verbatim>\<open>- [ ] A\<close> with the nested list \<^verbatim>\<open>- [ ] C\<close>, up to the close of the nested
  item; the nested list's close, the close of \<^verbatim>\<open>A\<close> and a sibling item follow it in the
  statements that use it.
\<close>

definition sublist_prefix :: "token list" where
  "sublist_prefix = [ul_open, li_open, p_open, inline_token ''[ ] A'', p_close,
                       ul_open, li_open, p_open, inline_token ''[ ] C'', p_close, li_close]"

text \<open>A run in which every random draw gives the same integer.\<close>

definition same_draw :: "nat \<Rightarrow> int" where
  "same_draw n = 5"

text \<open>Options objects: the empty one, and the ones the evaluations register.\<close>

definition opts_none :: TaskListOptions where
  "opts_none = \<lparr>enabled = None, label = None, labelAfter = None, listClass = None, itemClass = None,
      checkboxClass = None, labelClass = None, tiptapCompatible = None\<rparr>"

definition opts_enabled :: TaskListOptions where
  "opts_enabled = opts_none\<lparr>enabled := Some True\<rparr>"

definition opts_disabled_label :: TaskListOptions where
  "opts_disabled_label = opts_none\<lparr>enabled := Some False, label := Some True\<rparr>"

definition opts_enabled_label :: TaskListOptions where
  "opts_enabled_label = opts_none\<lparr>enabled := Some True, label := Some True\<rparr>"

definition opts_tiptap :: TaskListOptions where
  "opts_tiptap = opts_none\<lparr>enabled := Some True, label := Some True, tiptapCompatible := Some True\<rparr>"

section \<open>Reading the checked attribute off the markup\<close>

text \<open>
  The markup is a string, so that "the checkbox carries the checked attribute" is read off the
  string: it contains the attribute as the pass writes it, \<^verbatim>\<open>checked=""\<close>. \<open>has_infix p s\<close> says that
  \<open>p\<close> occurs in \<open>s\<close>. The markup is an input element of type checkbox when it contains the
  opening of the input tag and the type attribute. Class names are \<open>quote_free\<close> when neither the
  checkbox class nor the label class contains a double quote, so that they cannot close the
  attribute value they are written into.
\<close>

fun has_infix :: "string \<Rightarrow> string \<Rightarrow> bool" where
  "has_infix p [] = (p = [])"
| "has_infix p (x # xs) = (take (length p) (x # xs) = p \<or> has_infix p xs)"

definition carries_checked :: "string \<Rightarrow> bool" where
  \<open>carries_checked html = has_infix ''checked=""'' html\<close>

definition is_checkbox_input :: "string \<Rightarrow> bool" where
  \<open>is_checkbox_input html = (has_infix ''<input class="'' html \<and> has_infix '' type="checkbox" '' html)\<close>

definition quote_free :: "classes \<Rightarrow> bool" where
  "quote_free cls = (CHR 0x22 \<notin> set (cls_checkbox cls) \<and> CHR 0x22 \<notin> set (cls_label cls))"

text \<open>
  A scanner for the four characters \<^verbatim>\<open>d=""\<close>, the end of the attribute text: \<open>scan q s\<close> is its state
  after reading \<open>s\<close> from the state \<open>q\<close>. A state is \<open>safe\<close> when no double quote has been read
  after \<^verbatim>\<open>d=\<close>; a string \<open>keeps_safe\<close> when reading it from a safe state ends in a safe state.
\<close>

datatype scan_state = Idle | SeenD | SeenEq | SeenQuote | Found

fun scan_step :: "scan_state \<Rightarrow> char \<Rightarrow> scan_state" where
  "scan_step Found c = Found"
| "scan_step SeenQuote c = (if c = CHR 0x22 then Found else if c = CHR ''d'' then SeenD else Idle)"
| "scan_step SeenEq c = (if c = CHR 0x22 then SeenQuote else if c = CHR ''d'' then SeenD else Idle)"
| "scan_step SeenD c = (if c = CHR ''='' then SeenEq else if c = CHR ''d'' then SeenD else Idle)"
| "scan_step Idle c = (if c = CHR ''d'' then SeenD else Idle)"

definition scan :: "scan_state \<Rightarrow> string \<Rightarrow> scan_state" where
  "scan q s = foldl scan_step q s"

fun safe :: "scan_state \<Rightarrow> bool" where
  "safe Idle = True"
| "safe SeenD = True"
| "safe SeenEq = True"
| "safe SeenQuote = False"
| "safe Found = False"

definition keeps_safe :: "string \<Rightarrow> bool" where
  "keeps_safe s = (\<forall>q. safe q \<longrightarrow> safe (scan q s))"

text \<open>An options object whose checkbox class contains double quotes, and the markup it leads to.\<close>

definition opts_quoted_class :: TaskListOptions where
  \<open>opts_quoted_class = opts_none\<lparr>label := Some True, checkboxClass := Some ''todo" checked="''\<rparr>\<close>

definition quoted_class_markup :: string where
  \<open>quoted_class_markup = ''<label class="task-list-item-label" for="task-item-5"><input class="todo" checked=""  disabled  type="checkbox"  id="task-item-5"></label>''\<close>

section \<open>The invariant of the loops\<close>

lemma marker_drop3: "startsWithTodoMarkdown s \<Longrightarrow> \<not> startsWithTodoMarkdown (drop 3 s)"
  by (cases s; cases "tl s"; cases "tl (tl s)"; cases "tl (tl (tl s))")
     (auto simp: startsWithTodoMarkdown_def)

lemma retained_refl [simp]: "retained t t"
  by (simp add: retained_def)

lemma evolved_refl [simp]: "evolved g cls rnd t t"
  by (simp add: evolved_def)

lemma Inv_refl [simp]: "Inv g cls rnd ts ts"
  by (simp add: Inv_def list_all2_refl)

lemma Inv_length: "Inv g cls rnd ts0 ts \<Longrightarrow> length ts = length ts0"
  by (simp add: Inv_def list_all2_lengthD)

lemma Inv_nth: "Inv g cls rnd ts0 ts \<Longrightarrow> i < length ts0 \<Longrightarrow> evolved g cls rnd (ts0 ! i) (ts ! i)"
  by (simp add: Inv_def list_all2_nthD)

lemma Inv_update:
  "Inv g cls rnd ts0 ts \<Longrightarrow> i < length ts \<longrightarrow> evolved g cls rnd (ts0 ! i) t \<Longrightarrow> Inv g cls rnd ts0 (ts[i := t])"
  unfolding Inv_def list_all2_conv_all_nth
  by (auto simp: nth_list_update split: if_splits) (metis nth_list_update_eq nth_list_update_neq)

lemma evolved_ttype: "evolved g cls rnd t0 t \<Longrightarrow> ttype t = ttype t0"
  by (auto simp: evolved_def retained_def injected_def)

lemma evolved_tag: "evolved g cls rnd t0 t \<Longrightarrow> tag t = tag t0"
  by (auto simp: evolved_def retained_def injected_def)

lemma injected_no_marker: "injected g cls rnd t0 t \<Longrightarrow> \<not> startsWithTodoMarkdown (content t)"
  by (auto simp: injected_def marker_drop3)

lemma evolved_attrJoin:
  "evolved g cls rnd t0 t \<Longrightarrow> ttype t = ''list_item_open'' \<or> ttype t = ''bullet_list_open'' \<Longrightarrow>
   evolved g cls rnd t0 (attrJoin name v t)"
  by (auto simp: evolved_def retained_def injected_def attrJoin_def set_attrs_def)

lemma find_back_Some: "find_back ty ts k = Some c \<Longrightarrow> c \<le> k \<and> ttype (ts ! c) = ty"
  by (induction k) (auto split: if_splits)

lemma Inv_propagate: "Inv g cls rnd ts0 ts \<Longrightarrow> Inv g cls rnd ts0 (propagate cls' k ts)"
proof -
  assume inv: "Inv g cls rnd ts0 ts"
  have step: "\<And>ts c ty v. Inv g cls rnd ts0 ts \<Longrightarrow> ttype (ts ! c) = ty \<Longrightarrow>
      ty = ''list_item_open'' \<or> ty = ''bullet_list_open'' \<Longrightarrow>
      Inv g cls rnd ts0 (ts[c := attrJoin ''class'' v (ts ! c)])"
    by (rule Inv_update) (auto intro!: evolved_attrJoin dest: Inv_nth simp: Inv_length)
  show ?thesis
    unfolding propagate_def Let_def
    by (auto split: option.splits dest!: find_back_Some intro!: step inv)
qed


lemma evolved_marker_retained:
  "evolved g cls rnd t0 t \<Longrightarrow> startsWithTodoMarkdown (content t) \<Longrightarrow> retained t0 t"
  by (auto simp: evolved_def dest: injected_no_marker)

lemma injected_step:
  assumes "retained t0 t" "isInline t" "startsWithTodoMarkdown (content t)" "children t = Some (c # cs)"
  shows "injected g cls rnd t0
           (set_content (drop 3 (content t))
              (set_children (Some (make_checkbox (checkbox_content g cls (checked_marker (content t)) (rnd n))
                                   # set_content (drop 3 (content c)) c # cs)) t))"
proof -
  have eqs: "ttype t0 = ''inline''" "content t = content t0" "children t0 = Some (c # cs)"
    "ttype t = ttype t0" "tag t = tag t0" "attrs t = attrs t0"
    using assms unfolding retained_def isInline_def by auto
  show ?thesis
    unfolding injected_def
  proof (intro conjI)
    show "ttype t0 = ''inline''" by (rule eqs)
    show "startsWithTodoMarkdown (content t0)" using assms(3) eqs by simp
    show "\<exists>c' cs' n'. children t0 = Some (c' # cs') \<and>
        set_content (drop 3 (content t))
          (set_children (Some (make_checkbox (checkbox_content g cls (checked_marker (content t)) (rnd n))
                               # set_content (drop 3 (content c)) c # cs)) t) =
        Token (ttype t0) (tag t0) (attrs t0) (drop 3 (content t0))
          (Some (make_checkbox (checkbox_content g cls (checked_marker (content t0)) (rnd n'))
                 # set_content (drop 3 (content c')) c' # cs'))"
      by (rule exI [of _ c], rule exI [of _ cs], rule exI [of _ n])
         (simp add: eqs set_content_def set_children_def)
  qed
qed

lemma Inv_transform:
  assumes inv: "Inv g cls rnd ts0 (fst st)" and k: "k < length (fst st)"
    and inl: "isInline (fst st ! k)" and m: "startsWithTodoMarkdown (content (fst st ! k))"
  shows "Inv g cls rnd ts0 (fst (transform g cls rnd k st))"
proof -
  have ret: "retained (ts0 ! k) (fst st ! k)"
    using Inv_nth [OF inv] k Inv_length [OF inv] m by (auto intro: evolved_marker_retained)
  show ?thesis
  proof (cases "children (fst st ! k)")
    case None
    then show ?thesis using inv by (simp add: transform_def Let_def)
  next
    case (Some xs)
    show ?thesis
    proof (cases xs)
      case Nil
      then show ?thesis using inv Some by (simp add: transform_def Let_def)
    next
      case (Cons c cs)
      have "children (fst st ! k) = Some (c # cs)" using Some Cons by simp
      from injected_step [OF ret inl m this]
      show ?thesis using Some Cons inv
        by (auto simp: transform_def Let_def evolved_def intro!: Inv_propagate Inv_update)
    qed
  qed
qed

lemma Inv_k_loop:
  "Inv g cls rnd ts0 (fst st) \<Longrightarrow> Inv g cls rnd ts0 (fst (k_loop g cls rnd k st))"
proof (induction g cls rnd k st rule: k_loop.induct)
  case (1 g cls rnd k st)
  show ?case
    using "1.prems" "1.IH"
    by (subst k_loop.simps) (auto intro: Inv_transform)
qed

lemma Inv_j_loop:
  "Inv g cls rnd ts0 (fst st) \<Longrightarrow> Inv g cls rnd ts0 (fst (j_loop g cls rnd j st))"
proof (induction g cls rnd j st rule: j_loop.induct)
  case (1 g cls rnd j st)
  show ?case
    using "1.prems" "1.IH"
    by (subst j_loop.simps) (auto intro: Inv_k_loop)
qed

lemma Inv_i_loop:
  "Inv g cls rnd ts0 (fst st) \<Longrightarrow> Inv g cls rnd ts0 (fst (i_loop g cls rnd i b st))"
proof (induction g cls rnd i b st rule: i_loop.induct)
  case (1 g cls rnd i b st)
  show ?case
    using "1.prems" "1.IH"
    by (subst i_loop.simps) (auto intro: Inv_j_loop)
qed

lemma Inv_pass: "Inv g cls rnd ts (github_task_lists g cls rnd ts)"
  unfolding github_task_lists_def by (rule Inv_i_loop) simp


section \<open>Matched tokens that the loops reach are injected\<close>

lemma token_eqI:
  "ttype t = ttype u \<Longrightarrow> tag t = tag u \<Longrightarrow> attrs t = attrs u \<Longrightarrow> content t = content u \<Longrightarrow>
   children t = children u \<Longrightarrow> t = u"
  by (rule token.expand) simp

lemma injected_stable: "injected g cls rnd t0 t \<Longrightarrow> evolved g cls rnd t t' \<Longrightarrow> t' = t"
proof -
  assume i: "injected g cls rnd t0 t" and e: "evolved g cls rnd t t'"
  have ty: "ttype t = ''inline''" using i by (auto simp: injected_def)
  have "\<not> injected g cls rnd t t'" using injected_no_marker [OF i] by (simp add: injected_def)
  then have "retained t t'" using e by (simp add: evolved_def)
  then show ?thesis using ty by (auto simp: retained_def intro: token_eqI)
qed

lemma injected_kept:
  "Inv g cls rnd ts ts' \<Longrightarrow> k < length ts \<Longrightarrow> injected g cls rnd t0 (ts ! k) \<Longrightarrow> ts' ! k = ts ! k"
  by (blast intro: injected_stable dest: Inv_nth)

lemma attrJoin_sel [simp]:
  "ttype (attrJoin n v t) = ttype t" "tag (attrJoin n v t) = tag t"
  "content (attrJoin n v t) = content t" "children (attrJoin n v t) = children t"
  by (simp_all add: attrJoin_def set_attrs_def)

lemma content_update_attrJoin:
  "content (ts[c := attrJoin n v (ts ! c)] ! m) = content (ts ! m)"
  by (cases "c < length ts"; cases "m = c"; simp add: list_update_beyond)

lemma content_propagate: "content (propagate cls k ts ! m) = content (ts ! m)"
  by (simp add: propagate_def Let_def content_update_attrJoin split: option.splits)

lemma evolved_content_cases:
  "evolved g cls rnd t0 t \<Longrightarrow> startsWithTodoMarkdown (content t0) \<Longrightarrow>
   (if startsWithTodoMarkdown (content t) then retained t0 t else injected g cls rnd t0 t)"
  by (auto simp: evolved_def retained_def dest: injected_no_marker)

lemma k_loop_injects:
  assumes inv: "Inv g cls rnd ts0 (fst st)" and k: "k < length ts0"
    and ty: "ttype (ts0 ! k) = ''inline''" and m: "startsWithTodoMarkdown (content (ts0 ! k))"
    and ch: "children (ts0 ! k) = Some (c # cs)"
  shows "injected g cls rnd (ts0 ! k) (fst (k_loop g cls rnd k st) ! k)"
proof -
  have len: "length (fst st) = length ts0" by (rule Inv_length [OF inv])
  have ev: "evolved g cls rnd (ts0 ! k) (fst st ! k)" by (rule Inv_nth [OF inv k])
  have ty': "ttype (fst st ! k) = ''inline''" using evolved_ttype [OF ev] ty by simp
  define st1 where "st1 = (if startsWithTodoMarkdown (content (fst st ! k)) then transform g cls rnd k st else st)"
  have unfold: "k_loop g cls rnd k st = k_loop g cls rnd (k + 1) st1"
    using k len ty' by (subst k_loop.simps) (simp add: st1_def hasOpenOrCloseTag_def isInline_def)
  have inv1: "Inv g cls rnd ts0 (fst st1)"
    using inv k len ty' by (auto simp: st1_def isInline_def intro: Inv_transform)
  have inj1: "injected g cls rnd (ts0 ! k) (fst st1 ! k)"
  proof (cases "startsWithTodoMarkdown (content (fst st ! k))")
    case False
    then show ?thesis using evolved_content_cases [OF ev m] by (simp add: st1_def)
  next
    case True
    then have ret: "retained (ts0 ! k) (fst st ! k)" using evolved_content_cases [OF ev m] by simp
    then have ch': "children (fst st ! k) = Some (c # cs)" using ch by (simp add: retained_def)
    have "content (fst st1 ! k) = drop 3 (content (fst st ! k))"
      using True ch' k len
      by (simp add: st1_def transform_def Let_def content_propagate set_content_def)
    then have "\<not> startsWithTodoMarkdown (content (fst st1 ! k))"
      using True by (simp add: marker_drop3)
    then show ?thesis using evolved_content_cases [OF Inv_nth [OF inv1 k] m] by simp
  qed
  have "fst (k_loop g cls rnd (k + 1) st1) ! k = fst st1 ! k"
    by (rule injected_kept [OF Inv_k_loop [OF Inv_refl] _ inj1]) (simp add: Inv_length [OF inv1] k)
  then show ?thesis using inj1 unfold by simp
qed

lemma j_loop_injects:
  "Inv g cls rnd ts0 (fst st) \<Longrightarrow> j \<le> q \<Longrightarrow> Suc q < length ts0 \<Longrightarrow>
   (\<forall>x. j \<le> x \<and> x < q \<longrightarrow> ttype (ts0 ! x) \<noteq> ''list_item_close'') \<Longrightarrow>
   ttype (ts0 ! q) = ''paragraph_open'' \<Longrightarrow>
   ttype (ts0 ! Suc q) = ''inline'' \<Longrightarrow> startsWithTodoMarkdown (content (ts0 ! Suc q)) \<Longrightarrow>
   children (ts0 ! Suc q) = Some (c # cs) \<Longrightarrow>
   injected g cls rnd (ts0 ! Suc q) (fst (j_loop g cls rnd j st) ! Suc q)"
proof (induction g cls rnd j st rule: j_loop.induct)
  case (1 g cls rnd j st)
  have len: "length (fst st) = length ts0" by (rule Inv_length [OF "1.prems"(1)])
  have tyj: "ttype (fst st ! j) = ttype (ts0 ! j)"
    using Inv_nth [OF "1.prems"(1), of j] "1.prems"(2,3) by (auto dest: evolved_ttype)
  show ?case
  proof (cases "j = q")
    case True
    have unfold: "j_loop g cls rnd j st = j_loop g cls rnd (q + 1) (k_loop g cls rnd (q + 1) st)"
      using True tyj "1.prems" len by (subst j_loop.simps) (simp add: isParagraph_def)
    have inj: "injected g cls rnd (ts0 ! Suc q) (fst (k_loop g cls rnd (Suc q) st) ! Suc q)"
      using "1.prems" by (intro k_loop_injects) auto
    have "fst (j_loop g cls rnd (q + 1) (k_loop g cls rnd (q + 1) st)) ! Suc q
            = fst (k_loop g cls rnd (q + 1) st) ! Suc q"
      using inj "1.prems"(3) len
      by (intro injected_kept [OF Inv_j_loop [OF Inv_refl]]) auto
    then show ?thesis using inj unfold by simp
  next
    case False
    then have lt: "j < q" using "1.prems"(2) by simp
    then have nlic: "ttype (fst st ! j) \<noteq> ''list_item_close''" using tyj "1.prems"(4) by simp
    have jl: "j < length (fst st)" using lt "1.prems"(3) len by simp
    show ?thesis
    proof (cases "isParagraph (fst st ! j)")
      case True
      have unfold: "j_loop g cls rnd j st = j_loop g cls rnd (j + 1) (k_loop g cls rnd (j + 1) st)"
        using True nlic jl by (subst j_loop.simps) simp
      show ?thesis unfolding unfold
        using "1.IH"(2) [OF jl nlic _ Inv_k_loop [OF "1.prems"(1)]] True lt "1.prems"
        by auto
    next
      case False
      have unfold: "j_loop g cls rnd j st = j_loop g cls rnd (j + 1) st"
        using False nlic jl by (subst j_loop.simps) simp
      show ?thesis unfolding unfold
        using "1.IH"(1) [OF jl nlic False "1.prems"(1)] lt "1.prems"
        by auto
    qed
  qed
qed


lemma i_loop_injects:
  "Inv g cls rnd ts0 (fst st) \<Longrightarrow> i \<le> p \<Longrightarrow> p < q \<Longrightarrow> Suc q < length ts0 \<Longrightarrow>
   insideList_after b (take (p - i) (drop i ts0)) \<Longrightarrow>
   ttype (ts0 ! p) = ''list_item_open'' \<Longrightarrow>
   (\<forall>x. p < x \<and> x < q \<longrightarrow> ttype (ts0 ! x) \<noteq> ''list_item_close'') \<Longrightarrow>
   ttype (ts0 ! q) = ''paragraph_open'' \<Longrightarrow>
   ttype (ts0 ! Suc q) = ''inline'' \<Longrightarrow> startsWithTodoMarkdown (content (ts0 ! Suc q)) \<Longrightarrow>
   children (ts0 ! Suc q) = Some (c # cs) \<Longrightarrow>
   injected g cls rnd (ts0 ! Suc q) (fst (i_loop g cls rnd i b st) ! Suc q)"
proof (induction "p - i" arbitrary: i b st)
  case 0
  then have ip: "i = p" and b: "b" by simp_all
  have len: "length (fst st) = length ts0" by (rule Inv_length [OF "0.prems"(1)])
  have tyP: "ttype (fst st ! p) = ''list_item_open''"
    using Inv_nth [OF "0.prems"(1), of p] "0.prems" by (auto dest: evolved_ttype)
  have unfold: "i_loop g cls rnd i b st = i_loop g cls rnd (p + 1) True (j_loop g cls rnd (p + 1) st)"
    using ip b tyP len "0.prems"(3,4) by (subst i_loop.simps) (simp add: isListItem_def)
  have inj: "injected g cls rnd (ts0 ! Suc q) (fst (j_loop g cls rnd (p + 1) st) ! Suc q)"
    using "0.prems" by (intro j_loop_injects) auto
  have "fst (i_loop g cls rnd (p + 1) True (j_loop g cls rnd (p + 1) st)) ! Suc q
          = fst (j_loop g cls rnd (p + 1) st) ! Suc q"
    using inj "0.prems"(4) len by (intro injected_kept [OF Inv_i_loop [OF Inv_refl]]) auto
  then show ?case using inj unfold by simp
next
  case (Suc n)
  then have lt: "i < p" by simp
  have len: "length (fst st) = length ts0" by (rule Inv_length [OF Suc.prems(1)])
  have il: "i < length ts0" using lt Suc.prems(3,4) by simp
  have tyi: "ttype (fst st ! i) = ttype (ts0 ! i)"
    using Inv_nth [OF Suc.prems(1) il] by (auto dest: evolved_ttype)
  define b' where "b' = (if ttype (ts0 ! i) = ''bullet_list_open'' then True
                         else if ttype (ts0 ! i) = ''bullet_list_close'' then False else b)"
  define st' where "st' = (if ttype (ts0 ! i) \<noteq> ''bullet_list_open'' \<and> ttype (ts0 ! i) \<noteq> ''bullet_list_close''
                               \<and> b \<and> isListItem (fst st ! i)
                           then j_loop g cls rnd (i + 1) st else st)"
  have unfold: "i_loop g cls rnd i b st = i_loop g cls rnd (Suc i) b' st'"
    using il len tyi by (subst i_loop.simps) (auto simp: b'_def st'_def)
  have inv': "Inv g cls rnd ts0 (fst st')"
    using Suc.prems(1) by (auto simp: st'_def intro: Inv_j_loop)
  have "take (p - i) (drop i ts0) = ts0 ! i # take (p - Suc i) (drop (Suc i) ts0)"
    using lt il by (simp add: Cons_nth_drop_Suc [symmetric] Suc_diff_Suc [symmetric])
  then have flag': "insideList_after b' (take (p - Suc i) (drop (Suc i) ts0))"
    using Suc.prems(5) by (simp add: b'_def)
  have "n = p - Suc i" using Suc.hyps(2) by simp
  from Suc.hyps(1) [OF this inv' _ Suc.prems(3,4) flag' Suc.prems(6-11)]
  show ?case using lt unfold by simp
qed

lemma pass_injects:
  assumes "insideList_after False pre" and "ttype lio = ''list_item_open''"
    and "\<forall>t \<in> set mid. ttype t \<noteq> ''list_item_close''"
    and "ttype po = ''paragraph_open''" and "ttype inl = ''inline''"
    and "startsWithTodoMarkdown (content inl)" and "children inl = Some (c # cs)"
  shows "injected g cls rnd inl
           (github_task_lists g cls rnd (pre @ lio # mid @ po # inl # rest) ! (length pre + length mid + 2))"
proof -
  let ?ts = "pre @ lio # mid @ po # inl # rest"
  let ?p = "length pre" and ?q = "Suc (length pre + length mid)"
  have mid: "\<forall>x. ?p < x \<and> x < ?q \<longrightarrow> ttype (?ts ! x) \<noteq> ''list_item_close''"
  proof (intro allI impI)
    fix x assume x: "?p < x \<and> x < ?q"
    then have "?ts ! x = mid ! (x - Suc ?p)"
      by (auto simp: nth_append nth_Cons')
    moreover have "mid ! (x - Suc ?p) \<in> set mid" using x by (intro nth_mem) arith
    ultimately show "ttype (?ts ! x) \<noteq> ''list_item_close''" using assms(3) by simp
  qed
  have q: "?ts ! ?q = po" by (simp add: nth_append nth_Cons')
  have sq: "?ts ! Suc ?q = inl" by (simp add: nth_append nth_Cons')
  have "injected g cls rnd (?ts ! Suc ?q) (fst (i_loop g cls rnd 0 False (?ts, 0)) ! Suc ?q)"
    by (rule i_loop_injects [where p = ?p and q = ?q and c = c and cs = cs])
       (use assms mid in \<open>simp_all add: q sq\<close>)
  then show ?thesis by (simp add: github_task_lists_def sq)
qed

section \<open>Which tokens a loop can touch\<close>

text \<open>
  A transformation at \<open>k\<close> writes the token at \<open>k\<close>, the nearest \<^verbatim>\<open>list_item_open\<close> at or before
  \<open>k\<close>, and the nearest \<^verbatim>\<open>bullet_list_open\<close> at or before that one; nothing else.
\<close>

lemma find_back_nearest:
  "ttype (ts ! i0) = ty \<Longrightarrow> i0 \<le> k \<Longrightarrow> \<exists>c. find_back ty ts k = Some c \<and> i0 \<le> c"
proof (induction k)
  case 0
  then show ?case by simp
next
  case (Suc k)
  then show ?case by (cases "i0 = Suc k") auto
qed

lemma ttype_update_attrJoin:
  "ttype (ts[c := attrJoin n v (ts ! c)] ! m) = ttype (ts ! m)"
  by (cases "c < length ts"; cases "m = c"; simp add: list_update_beyond)

lemma ttype_propagate: "ttype (propagate cls k ts ! m) = ttype (ts ! m)"
  by (simp add: propagate_def Let_def ttype_update_attrJoin split: option.splits)

lemma propagate_frame:
  assumes m: "m < length ts"
    and c: "k < m \<or> (ttype (ts ! m) \<noteq> ''list_item_open'' \<and> ttype (ts ! m) \<noteq> ''bullet_list_open'')
            \<or> (ttype (ts ! m) \<noteq> ''bullet_list_open'' \<and>
                (\<exists>i0. m < i0 \<and> i0 \<le> k \<and> ttype (ts ! i0) = ''list_item_open''))"
  shows "propagate cls k ts ! m = ts ! m"
proof (cases "find_back ''list_item_open'' ts k")
  case None
  then show ?thesis by (simp add: propagate_def)
next
  case (Some c')
  have c'k: "c' \<le> k" and c'ty: "ttype (ts ! c') = ''list_item_open''"
    using find_back_Some [OF Some] by simp_all
  have ne: "m \<noteq> c'"
  proof
    assume "m = c'"
    with c c'k c'ty obtain i0 where i0: "m < i0" "i0 \<le> k" "ttype (ts ! i0) = ''list_item_open''"
      by auto
    from find_back_nearest [OF i0(3,2)] Some have "i0 \<le> c'" by simp
    with \<open>m = c'\<close> i0(1) show False by simp
  qed
  define ts1 where "ts1 = ts[c' := attrJoin ''class'' (cls_item cls) (ts ! c')]"
  have m1: "ts1 ! m = ts ! m" using ne by (simp add: ts1_def)
  show ?thesis
  proof (cases "find_back ''bullet_list_open'' ts1 c'")
    case None
    then show ?thesis using Some m1 by (simp add: propagate_def Let_def ts1_def)
  next
    case (Some d)
    have dk: "d \<le> c'" and dty: "ttype (ts1 ! d) = ''bullet_list_open''"
      using find_back_Some [OF Some] by simp_all
    have "m \<noteq> d" using c dk c'k dty m1 by auto
    then show ?thesis using Some \<open>find_back ''list_item_open'' ts k = Some c'\<close> m1
      by (simp add: propagate_def Let_def ts1_def)
  qed
qed

lemma ttype_transform:
  "ttype (fst (transform g cls rnd k st) ! x) = ttype (fst st ! x)"
proof (cases "k < length (fst st) \<and> x = k")
  case True
  then show ?thesis
    by (simp add: transform_def Let_def ttype_propagate set_content_def set_children_def
             split: option.splits list.splits)
next
  case False
  then have "\<And>t. (fst st)[k := t] ! x = fst st ! x"
    by (cases "k < length (fst st)") (auto simp: list_update_beyond)
  then show ?thesis
    by (simp add: transform_def Let_def ttype_propagate split: option.splits list.splits)
qed

lemma transform_frame:
  assumes m: "m < length (fst st)" and mk: "m \<noteq> k"
    and c: "k < m \<or> (ttype (fst st ! m) \<noteq> ''list_item_open'' \<and> ttype (fst st ! m) \<noteq> ''bullet_list_open'')
            \<or> (ttype (fst st ! m) \<noteq> ''bullet_list_open'' \<and>
                (\<exists>i0. m < i0 \<and> i0 \<le> k \<and> ttype (fst st ! i0) = ''list_item_open''))"
  shows "fst (transform g cls rnd k st) ! m = fst st ! m"
proof (cases "children (fst st ! k)")
  case None
  then show ?thesis by (simp add: transform_def Let_def)
next
  case (Some xs)
  show ?thesis
  proof (cases xs)
    case Nil
    then show ?thesis using Some by (simp add: transform_def Let_def)
  next
    case (Cons c' cs)
    define tok' where "tok' = set_content (drop 3 (content (fst st ! k)))
      (set_children (Some (make_checkbox (checkbox_content g cls (checked_marker (content (fst st ! k))) (rnd (snd st)))
                           # set_content (drop 3 (content c')) c' # cs)) (fst st ! k))"
    define ts1 where "ts1 = (fst st)[k := tok']"
    have ty: "\<And>x. ttype (ts1 ! x) = ttype (fst st ! x)"
    proof -
      fix x show "ttype (ts1 ! x) = ttype (fst st ! x)"
        by (cases "k < length (fst st)"; cases "x = k")
           (simp_all add: ts1_def tok'_def set_content_def set_children_def list_update_beyond)
    qed
    have eq: "fst (transform g cls rnd k st) = propagate cls k ts1"
      using Some Cons by (simp add: transform_def Let_def ts1_def tok'_def)
    have "propagate cls k ts1 ! m = ts1 ! m"
      using m c by (intro propagate_frame) (simp_all add: ty, simp add: ts1_def)
    then show ?thesis using mk by (simp add: eq, simp add: ts1_def)
  qed
qed

lemma ttype_k_loop:
  "x < length (fst st) \<Longrightarrow> ttype (fst (k_loop g cls rnd k st) ! x) = ttype (fst st ! x)"
  by (rule evolved_ttype [OF Inv_nth [OF Inv_k_loop [OF Inv_refl]]])

lemma tag_k_loop:
  "x < length (fst st) \<Longrightarrow> tag (fst (k_loop g cls rnd k st) ! x) = tag (fst st ! x)"
  by (rule evolved_tag [OF Inv_nth [OF Inv_k_loop [OF Inv_refl]]])

lemma ttype_j_loop:
  "x < length (fst st) \<Longrightarrow> ttype (fst (j_loop g cls rnd j st) ! x) = ttype (fst st ! x)"
  by (rule evolved_ttype [OF Inv_nth [OF Inv_j_loop [OF Inv_refl]]])

lemma tag_j_loop:
  "x < length (fst st) \<Longrightarrow> tag (fst (j_loop g cls rnd j st) ! x) = tag (fst st ! x)"
  by (rule evolved_tag [OF Inv_nth [OF Inv_j_loop [OF Inv_refl]]])

lemma k_loop_frame_after:
  "i0 < k \<Longrightarrow> ttype (fst st ! i0) = ''list_item_open'' \<Longrightarrow> m < i0 \<Longrightarrow>
   ttype (fst st ! m) \<noteq> ''bullet_list_open'' \<Longrightarrow>
   fst (k_loop g cls rnd k st) ! m = fst st ! m"
proof (induction g cls rnd k st rule: k_loop.induct)
  case (1 g cls rnd k st)
  show ?case
  proof (cases "k < length (fst st) \<and> \<not> hasOpenOrCloseTag (fst st ! k) ''p''")
    case False
    then show ?thesis by (subst k_loop.simps) auto
  next
    case True
    have fr: "fst (transform g cls rnd k st) ! m = fst st ! m"
      using "1.prems" True by (intro transform_frame) auto
    show ?thesis
      using True "1.IH" "1.prems" fr
      by (subst k_loop.simps) (auto simp: ttype_transform)
  qed
qed

lemma j_loop_frame_after:
  "i0 < j \<Longrightarrow> ttype (fst st ! i0) = ''list_item_open'' \<Longrightarrow> m < i0 \<Longrightarrow>
   ttype (fst st ! m) \<noteq> ''bullet_list_open'' \<Longrightarrow>
   fst (j_loop g cls rnd j st) ! m = fst st ! m"
proof (induction g cls rnd j st rule: j_loop.induct)
  case (1 g cls rnd j st)
  have fr: "fst (k_loop g cls rnd (j + 1) st) ! m = fst st ! m"
    using "1.prems" by (intro k_loop_frame_after [where ?i0.0 = i0]) auto
  show ?case
    using "1.IH" "1.prems" fr
    by (subst j_loop.simps) (auto simp: ttype_k_loop)
qed

lemma i_loop_frame_after:
  "m < i \<Longrightarrow> ttype (fst st ! m) \<noteq> ''bullet_list_open'' \<Longrightarrow>
   fst (i_loop g cls rnd i b st) ! m = fst st ! m"
proof (induction g cls rnd i b st rule: i_loop.induct)
  case (1 g cls rnd i b st)
  have fr: "isListItem (fst st ! i) \<Longrightarrow> fst (j_loop g cls rnd (i + 1) st) ! m = fst st ! m"
    using "1.prems" by (intro j_loop_frame_after [where ?i0.0 = i]) (auto simp: isListItem_def)
  show ?case
    using "1.IH" "1.prems" fr
    by (subst i_loop.simps) auto
qed


lemma i_loop_skips:
  "i \<le> m \<Longrightarrow> m \<le> length (fst st) \<Longrightarrow>
   (\<forall>x. i \<le> x \<and> x < m \<longrightarrow> ttype (fst st ! x) \<noteq> ''bullet_list_open'') \<Longrightarrow>
   i_loop g cls rnd i False st = i_loop g cls rnd m False st"
proof (induction "m - i" arbitrary: i)
  case 0
  then show ?case by simp
next
  case (Suc n)
  then have lt: "i < m" by simp
  have "i_loop g cls rnd i False st = i_loop g cls rnd (Suc i) False st"
    using lt Suc.prems by (subst i_loop.simps) auto
  moreover have "i_loop g cls rnd (Suc i) False st = i_loop g cls rnd m False st"
    using Suc.hyps(2) lt Suc.prems by (intro Suc.hyps(1)) auto
  ultimately show ?case by simp
qed

lemma k_loop_frame_before:
  "k \<le> Suc L \<Longrightarrow> Suc L < length (fst st) \<Longrightarrow> hasOpenOrCloseTag (fst st ! Suc L) ''p'' \<Longrightarrow>
   ttype (fst st ! L) \<noteq> ''inline'' \<Longrightarrow> L \<le> m \<Longrightarrow> m < length (fst st) \<Longrightarrow>
   fst (k_loop g cls rnd k st) ! m = fst st ! m"
proof (induction g cls rnd k st rule: k_loop.induct)
  case (1 g cls rnd k st)
  show ?case
  proof (cases "k < length (fst st) \<and> \<not> hasOpenOrCloseTag (fst st ! k) ''p''")
    case False
    then show ?thesis by (subst k_loop.simps) auto
  next
    case True
    then have kne: "k \<noteq> Suc L" using "1.prems"(3) by auto
    then have kle: "k + 1 \<le> Suc L" using "1.prems"(1) by simp
    show ?thesis
    proof (cases "isInline (fst st ! k) \<and> startsWithTodoMarkdown (content (fst st ! k))")
      case False
      then have "k_loop g cls rnd k st = k_loop g cls rnd (k + 1) st"
        using True by (subst k_loop.simps) auto
      moreover have "fst (k_loop g cls rnd (k + 1) st) ! m = fst st ! m"
        using False True "1.prems" kle "1.IH"(1,2) by auto
      ultimately show ?thesis by simp
    next
      case inl: True
      then have "k \<noteq> L" using "1.prems"(4) by (auto simp: isInline_def)
      then have kl: "k < L" using kle by simp
      have fr: "\<And>x. L \<le> x \<Longrightarrow> x < length (fst st) \<Longrightarrow> fst (transform g cls rnd k st) ! x = fst st ! x"
        using kl by (intro transform_frame) auto
      have "k_loop g cls rnd k st = k_loop g cls rnd (k + 1) (transform g cls rnd k st)"
        using True inl by (subst k_loop.simps) auto
      moreover have "fst (k_loop g cls rnd (k + 1) (transform g cls rnd k st)) ! m
                       = fst (transform g cls rnd k st) ! m"
        using True inl kle "1.prems" fr by (intro "1.IH"(3)) auto
      ultimately show ?thesis using fr "1.prems" by simp
    qed
  qed
qed

lemma j_loop_frame_before:
  "j \<le> C \<Longrightarrow> Suc (Suc C) < length (fst st) \<Longrightarrow> ttype (fst st ! C) = ''list_item_close'' \<Longrightarrow>
   ttype (fst st ! Suc C) \<noteq> ''inline'' \<Longrightarrow> hasOpenOrCloseTag (fst st ! Suc (Suc C)) ''p'' \<Longrightarrow>
   Suc C \<le> m \<Longrightarrow> m < length (fst st) \<Longrightarrow>
   fst (j_loop g cls rnd j st) ! m = fst st ! m"
proof (induction g cls rnd j st rule: j_loop.induct)
  case (1 g cls rnd j st)
  show ?case
  proof (cases "j = C")
    case True
    then show ?thesis using "1.prems" by (subst j_loop.simps) auto
  next
    case False
    then have jl: "j < C" "j + 1 \<le> Suc (Suc C)" using "1.prems"(1) by simp_all
    have fr: "\<And>x. Suc C \<le> x \<Longrightarrow> x < length (fst st) \<Longrightarrow>
                fst (k_loop g cls rnd (j + 1) st) ! x = fst st ! x"
      using jl "1.prems" by (intro k_loop_frame_before [where L = "Suc C"]) auto
    show ?thesis
    proof (cases "ttype (fst st ! j) = ''list_item_close''")
      case True
      then show ?thesis by (subst j_loop.simps) auto
    next
      case nlic: False
      show ?thesis
      proof (cases "isParagraph (fst st ! j)")
        case True
        have "j_loop g cls rnd j st = j_loop g cls rnd (j + 1) (k_loop g cls rnd (j + 1) st)"
          using True nlic jl "1.prems" by (subst j_loop.simps) auto
        moreover have "fst (j_loop g cls rnd (j + 1) (k_loop g cls rnd (j + 1) st)) ! m
                         = fst (k_loop g cls rnd (j + 1) st) ! m"
          using True nlic jl "1.prems" fr by (intro "1.IH"(2)) (auto simp: ttype_k_loop)
        ultimately show ?thesis using fr "1.prems" by simp
      next
        case False
        have "j_loop g cls rnd j st = j_loop g cls rnd (j + 1) st"
          using False nlic jl "1.prems" by (subst j_loop.simps) auto
        moreover have "fst (j_loop g cls rnd (j + 1) st) ! m = fst st ! m"
          using False nlic jl "1.prems" by (intro "1.IH"(1)) auto
        ultimately show ?thesis by simp
      qed
    qed
  qed
qed

lemma i_loop_frame_before:
  "i \<le> B \<Longrightarrow> Suc (Suc (Suc (Suc B))) < length (fst st) \<Longrightarrow>
   ttype (fst st ! B) = ''bullet_list_close'' \<Longrightarrow> ttype (fst st ! Suc B) = ''list_item_close'' \<Longrightarrow>
   ttype (fst st ! Suc (Suc B)) = ''list_item_open'' \<Longrightarrow>
   hasOpenOrCloseTag (fst st ! Suc (Suc (Suc B))) ''p'' \<Longrightarrow>
   ttype (fst st ! Suc (Suc (Suc (Suc B)))) = ''inline'' \<Longrightarrow>
   Suc (Suc B) \<le> m \<Longrightarrow> m \<le> Suc (Suc (Suc (Suc B))) \<Longrightarrow>
   fst (i_loop g cls rnd i b st) ! m = fst st ! m"
proof (induction "B - i" arbitrary: i b st)
  case 0
  then have iB: "i = B" by simp
  define E where "E = Suc (Suc (Suc (Suc (Suc B))))"
  have nb: "\<forall>x. Suc B \<le> x \<and> x < E \<longrightarrow> ttype (fst st ! x) \<noteq> ''bullet_list_open''"
  proof (intro allI impI)
    fix x assume "Suc B \<le> x \<and> x < E"
    then have "x = Suc B \<or> x = Suc (Suc B) \<or> x = Suc (Suc (Suc B)) \<or> x = Suc (Suc (Suc (Suc B)))"
      unfolding E_def by arith
    then show "ttype (fst st ! x) \<noteq> ''bullet_list_open''"
      using "0.prems" by (auto simp: hasOpenOrCloseTag_def)
  qed
  have "i_loop g cls rnd i b st = i_loop g cls rnd (Suc B) False st"
    using iB "0.prems" by (subst i_loop.simps) auto
  also have "\<dots> = i_loop g cls rnd E False st"
    using "0.prems" nb by (intro i_loop_skips) (auto simp: E_def)
  finally have "i_loop g cls rnd i b st = i_loop g cls rnd E False st" .
  moreover have "ttype (fst st ! m) \<noteq> ''bullet_list_open''"
    using nb "0.prems" by (auto simp: E_def)
  then have "fst (i_loop g cls rnd E False st) ! m = fst st ! m"
    using "0.prems" by (intro i_loop_frame_after) (auto simp: E_def)
  ultimately show ?case by simp
next
  case (Suc n)
  then have lt: "i < B" by simp
  define b' where "b' = (if ttype (fst st ! i) = ''bullet_list_open'' then True
                         else if ttype (fst st ! i) = ''bullet_list_close'' then False else b)"
  define st' where "st' = (if ttype (fst st ! i) \<noteq> ''bullet_list_open'' \<and> ttype (fst st ! i) \<noteq> ''bullet_list_close''
                               \<and> b \<and> isListItem (fst st ! i)
                           then j_loop g cls rnd (i + 1) st else st)"
  have unfold: "i_loop g cls rnd i b st = i_loop g cls rnd (Suc i) b' st'"
    using lt Suc.prems(2) by (subst i_loop.simps) (auto simp: b'_def st'_def)
  have "\<And>x. Suc (Suc B) \<le> x \<Longrightarrow> x < length (fst st) \<Longrightarrow>
          fst (j_loop g cls rnd (i + 1) st) ! x = fst st ! x"
    using lt Suc.prems by (intro j_loop_frame_before [where C = "Suc B"]) auto
  then have fr: "\<And>x. Suc (Suc B) \<le> x \<Longrightarrow> x < length (fst st) \<Longrightarrow> fst st' ! x = fst st ! x"
    unfolding st'_def by simp
  have ty: "\<And>x. x < length (fst st) \<Longrightarrow> ttype (fst st' ! x) = ttype (fst st ! x)"
    unfolding st'_def by (auto simp: ttype_j_loop)
  have len: "length (fst st') = length (fst st)" by (simp add: st'_def)
  have "fst (i_loop g cls rnd (Suc i) b' st') ! m = fst st' ! m"
    using Suc.hyps(2) lt Suc.prems by (intro Suc.hyps(1)) (auto simp: len fr ty)
  then show ?case using unfold fr Suc.prems by simp
qed

lemma pass_skips_item_after_sublist:
  assumes "ttype blc = ''bullet_list_close''" "ttype lic = ''list_item_close''"
    "ttype lio = ''list_item_open''" "ttype po = ''paragraph_open''" "tag po = ''p''"
    "ttype inl = ''inline''"
  shows "github_task_lists g cls rnd (pre @ blc # lic # lio # po # inl # rest) ! (length pre + 2) = lio \<and>
         github_task_lists g cls rnd (pre @ blc # lic # lio # po # inl # rest) ! (length pre + 3) = po \<and>
         github_task_lists g cls rnd (pre @ blc # lic # lio # po # inl # rest) ! (length pre + 4) = inl"
proof -
  let ?ts = "pre @ blc # lic # lio # po # inl # rest"
  let ?B = "length pre"
  let ?out = "github_task_lists g cls rnd ?ts"
  have el: "?ts ! ?B = blc" "?ts ! Suc ?B = lic" "?ts ! Suc (Suc ?B) = lio"
    "?ts ! Suc (Suc (Suc ?B)) = po" "?ts ! Suc (Suc (Suc (Suc ?B))) = inl"
    by (simp_all add: nth_append)
  have fr: "Suc (Suc ?B) \<le> m \<Longrightarrow> m \<le> Suc (Suc (Suc (Suc ?B))) \<Longrightarrow> ?out ! m = ?ts ! m" for m
    unfolding github_task_lists_def
    using i_loop_frame_before [where B = ?B and i = 0 and st = "(?ts, 0)" and m = m and g = g and cls = cls
                                 and rnd = rnd and b = False] assms
    by (simp add: el hasOpenOrCloseTag_def)
  have n: "?B + 2 = Suc (Suc ?B)" "?B + 3 = Suc (Suc (Suc ?B))" "?B + 4 = Suc (Suc (Suc (Suc ?B)))"
    by simp_all
  show ?thesis
    unfolding n
    using fr [of "Suc (Suc ?B)"] fr [of "Suc (Suc (Suc ?B))"] fr [of "Suc (Suc (Suc (Suc ?B)))"] el
    by simp
qed

section \<open>The marker and the checked attribute\<close>

lemma marker_checked:
  "take 4 s = ''[x] '' \<or> take 4 s = ''[X] '' \<Longrightarrow> checked_marker s"
  by (cases s; cases "tl s"; cases "tl (tl s)"; cases "tl (tl (tl s))")
     (auto simp: checked_marker_def)

lemma marker_unchecked: "take 4 s = ''[ ] '' \<Longrightarrow> \<not> checked_marker s"
  by (cases s; cases "tl s"; cases "tl (tl s)"; cases "tl (tl (tl s))")
     (auto simp: checked_marker_def)


lemma has_infix_decomp: "has_infix p s \<Longrightarrow> \<exists>A B. s = A @ p @ B"
proof (induction s)
  case Nil
  then show ?case by simp
next
  case (Cons x xs)
  show ?case
  proof (cases "take (length p) (x # xs) = p")
    case True
    then have "x # xs = [] @ p @ drop (length p) (x # xs)"
      by (metis append_Nil append_take_drop_id)
    then show ?thesis by blast
  next
    case False
    then have "has_infix p xs" using Cons.prems by simp
    then obtain A B where "xs = A @ p @ B" using Cons.IH by blast
    then have "x # xs = (x # A) @ p @ B" by simp
    then show ?thesis by blast
  qed
qed

lemma has_infix_here: "has_infix p (p @ B)"
proof (cases "p @ B")
  case Nil
  then show ?thesis by simp
next
  case (Cons x xs)
  have "take (length p) (p @ B) = p" by simp
  then have "take (length p) (x # xs) = p" unfolding Cons .
  then show ?thesis unfolding Cons by simp
qed

lemma has_infix_append: "has_infix p (A @ p @ B)"
proof (induction A)
  case Nil
  show ?case using has_infix_here by simp
next
  case (Cons a A)
  then show ?case by simp
qed

lemma has_infix_iff: "has_infix p s \<longleftrightarrow> (\<exists>A B. s = A @ p @ B)"
  using has_infix_decomp has_infix_append by blast

lemma scan_append: "scan q (a @ b) = scan (scan q a) b"
  by (simp add: scan_def)

lemma scan_Found: "scan Found s = Found"
  by (induction s) (simp_all add: scan_def)

lemma scan_pattern: \<open>scan q ''checked=""'' = Found\<close>
  by (cases q) (simp_all add: scan_def)

lemma scan_Nil: "scan q [] = q"
  by (simp add: scan_def)

lemma scan_Cons: "scan q (c # s) = scan (scan_step q c) s"
  by (simp add: scan_def)

lemma carries_checked_scan:
  assumes "carries_checked s"
  shows "scan Idle s = Found"
proof -
  obtain A B where s: \<open>s = A @ ''checked=""'' @ B\<close>
    using assms has_infix_decomp unfolding carries_checked_def by blast
  show ?thesis by (simp only: s scan_append scan_pattern scan_Found)
qed

lemma safe_step: "safe q \<Longrightarrow> c \<noteq> CHR 0x22 \<Longrightarrow> safe (scan_step q c)"
  by (cases q) simp_all

lemma keeps_safe_quote_free: "CHR 0x22 \<notin> set s \<Longrightarrow> keeps_safe s"
  unfolding keeps_safe_def
proof (induction s)
  case Nil
  then show ?case by (simp add: scan_Nil)
next
  case (Cons c s)
  show ?case
  proof (intro allI impI)
    fix q assume "safe q"
    then have "safe (scan_step q c)" using Cons.prems by (intro safe_step) auto
    then show "safe (scan q (c # s))" using Cons by (simp add: scan_Cons)
  qed
qed

lemma keeps_safe_append: "keeps_safe a \<Longrightarrow> keeps_safe b \<Longrightarrow> keeps_safe (a @ b)"
  by (simp add: keeps_safe_def scan_append)

lemma keeps_safe_not_carries:
  assumes "keeps_safe s"
  shows "\<not> carries_checked s"
proof
  assume "carries_checked s"
  then have "scan Idle s = Found" by (rule carries_checked_scan)
  moreover have "safe (scan Idle s)" using assms by (simp add: keeps_safe_def)
  ultimately show False by simp
qed

lemma keeps_safeI:
  assumes "safe (scan Idle s)" "safe (scan SeenD s)" "safe (scan SeenEq s)"
  shows "keeps_safe s"
  unfolding keeps_safe_def
proof (intro allI impI)
  fix q assume "safe q"
  then show "safe (scan q s)" using assms by (cases q) simp_all
qed

lemma keeps_safe_literals:
  \<open>keeps_safe ''<input class="''\<close>
  \<open>keeps_safe ''" ''\<close>
  \<open>keeps_safe '' disabled ''\<close>
  \<open>keeps_safe ''''\<close>
  \<open>keeps_safe '' type="checkbox" ''\<close>
  \<open>keeps_safe ''>''\<close>
  \<open>keeps_safe ''<label class="''\<close>
  \<open>keeps_safe ''" for="''\<close>
  \<open>keeps_safe ''">''\<close>
  \<open>keeps_safe ''</label>''\<close>
  \<open>keeps_safe '' id="task-item-''\<close>
  by (rule keeps_safeI; simp add: scan_Cons scan_Nil)+

lemma nat_to_string_digits: "set (nat_to_string n) \<subseteq> set ''0123456789''"
proof (induction n rule: nat_to_string.induct)
  case (1 n)
  have d: "\<And>k. k < 10 \<Longrightarrow> ''0123456789'' ! k \<in> set ''0123456789''"
    by (rule nth_mem) simp
  show ?case
  proof (cases "n < 10")
    case True
    then show ?thesis using d [of n] by (subst nat_to_string.simps) simp
  next
    case False
    have "n mod 10 < 10" by simp
    then show ?thesis using False "1.IH" d [of "n mod 10"]
      by (subst nat_to_string.simps) simp
  qed
qed

lemma int_to_string_quote_free: "CHR 0x22 \<notin> set (int_to_string i)"
  using nat_to_string_digits [of "nat i"] nat_to_string_digits [of "nat (- i)"]
  by (auto simp: int_to_string_def)

lemma keeps_safe_task_id: "keeps_safe (task_id N)"
  by (rule keeps_safe_quote_free) (simp add: task_id_def int_to_string_quote_free)

lemma keeps_safe_id:
  assumes "keeps_safe r"
  shows \<open>keeps_safe ('' id="'' @ task_id N @ r)\<close>
proof -
  have \<open>'' id="'' @ task_id N @ r = '' id="task-item-'' @ int_to_string N @ r\<close>
    by (simp add: task_id_def)
  moreover have \<open>keeps_safe ('' id="task-item-'' @ int_to_string N @ r)\<close>
    by (intro keeps_safe_append keeps_safe_literals assms keeps_safe_quote_free int_to_string_quote_free)
  ultimately show ?thesis by simp
qed

lemma unchecked_keeps_safe:
  assumes "quote_free cls"
  shows "keeps_safe (checkbox_content g cls False N)"
proof -
  have c: "keeps_safe (cls_checkbox cls)" and l: "keeps_safe (cls_label cls)"
    using assms by (auto simp: quote_free_def intro: keeps_safe_quote_free)
  have d: "keeps_safe (if disableCheckboxes g then '' disabled '' else '''')"
    by (simp add: keeps_safe_literals)
  show ?thesis
    unfolding checkbox_content_def Let_def
    by (cases "useLabelWrapper g"; cases "useLabelAfter g"; simp only: if_True if_False)
       (intro keeps_safe_id keeps_safe_append keeps_safe_literals keeps_safe_task_id c l d)+
qed

lemma unchecked_not_carries: "quote_free cls \<Longrightarrow> \<not> carries_checked (checkbox_content g cls False N)"
  by (rule keeps_safe_not_carries [OF unchecked_keeps_safe])

lemma has_infix_left: "has_infix p b \<Longrightarrow> has_infix p (a @ b)"
  by (induction a) simp_all

lemma has_infix_right: "has_infix p a \<Longrightarrow> has_infix p (a @ b)"
  by (auto simp: has_infix_iff) (metis append.assoc)

lemma checked_carries: "carries_checked (checkbox_content g cls True N)"
proof -
  have h: \<open>\<And>r. carries_checked (''checked="" '' @ r)\<close>
    unfolding carries_checked_def by simp
  have up: "\<And>a b. carries_checked b \<Longrightarrow> carries_checked (a @ b)"
    unfolding carries_checked_def by (rule has_infix_left)
  show ?thesis
    unfolding checkbox_content_def Let_def
    by (cases "useLabelWrapper g"; cases "useLabelAfter g"; simp only: if_True if_False)
       (intro up h)+
qed

lemma checkbox_is_input: "is_checkbox_input (checkbox_content g cls b N)"
proof -
  have h1: \<open>\<And>r. has_infix ''<input class="'' (''<input class="'' @ r)\<close>
    by (rule has_infix_here)
  have h2: \<open>\<And>r. has_infix '' type="checkbox" '' ('' type="checkbox" '' @ r)\<close>
    by (rule has_infix_here)
  show ?thesis
    unfolding is_checkbox_input_def checkbox_content_def Let_def
    by (cases "useLabelWrapper g"; cases "useLabelAfter g"; simp only: if_True if_False)
       (intro conjI; intro has_infix_left h1 h2)+
qed

section \<open>The claims\<close>

subsection \<open>C1: an unchecked marker\<close>




subsection \<open>C2: the option \<^verbatim>\<open>tiptapCompatible\<close>\<close>

text \<open>
  C2 says that a registration with \<^verbatim>\<open>tiptapCompatible\<close> true emits no input element and marks the
  list item and the list with data attributes. The plugin never reads the option: registered
  with \<^verbatim>\<open>enabled\<close>, \<^verbatim>\<open>label\<close> and \<^verbatim>\<open>tiptapCompatible\<close> all true, the pass over \<^verbatim>\<open>- [ ] A\<close> still
  inserts an input element, and the only attribute of the list item and of the list is the
  class.
\<close>

theorem tiptap_option_ignored:
  \<open>github_task_lists (fst (taskLists initial_globals (Some opts_tiptap)))
       (snd (taskLists initial_globals (Some opts_tiptap))) same_draw doc_one_item
     = [set_attrs [(''class'', ''contains-task-list'')] ul_open,
        set_attrs [(''class'', ''task-list-item'')] li_open,
        p_open,
        Token ''inline'' '''' [] '' A''
          (Some [make_checkbox ''<label class="task-list-item-label" for="task-item-5"><input class="task-list-item-checkbox"  type="checkbox"  id="task-item-5"></label>'',
                 text_token '' A'']),
        p_close, li_close, ul_close]\<close>
  by code_simp

subsection \<open>C3: two registrations\<close>

text \<open>
  C3 says that the passes of a registration follow the options of that registration, whatever
  is registered later. The three flags are module variables: after a first registration with
  \<^verbatim>\<open>enabled\<close> false its pass emits a disabled checkbox; once a second registration with
  \<^verbatim>\<open>enabled\<close> true has run, the pass of the first one, with its own class names, emits the
  checkbox without the disabled attribute.
\<close>

theorem later_registration_changes_earlier_pass:
  \<open>children (github_task_lists (fst (taskLists initial_globals (Some opts_disabled_label)))
       (snd (taskLists initial_globals (Some opts_disabled_label))) same_draw doc_one_item ! 3)
     = Some [make_checkbox ''<label class="task-list-item-label" for="task-item-5"><input class="task-list-item-checkbox"  disabled  type="checkbox"  id="task-item-5"></label>'',
             text_token '' A''] \<and>
   children (github_task_lists
       (fst (taskLists (fst (taskLists initial_globals (Some opts_disabled_label))) (Some opts_enabled_label)))
       (snd (taskLists initial_globals (Some opts_disabled_label))) same_draw doc_one_item ! 3)
     = Some [make_checkbox ''<label class="task-list-item-label" for="task-item-5"><input class="task-list-item-checkbox"  type="checkbox"  id="task-item-5"></label>'',
             text_token '' A'']\<close>
  by code_simp

subsection \<open>C4: the default of \<^verbatim>\<open>label\<close>\<close>

text \<open>
  C4 says that a registration whose options object has no \<^verbatim>\<open>label\<close> key wraps every checkbox in
  a label. The registration computes the flag as the double negation of the absent key, which
  is false: registered with only \<^verbatim>\<open>enabled\<close> true, the pass over \<^verbatim>\<open>- [ ] A\<close> emits a bare input
  element.
\<close>

theorem absent_label_key_disables_wrapper:
  \<open>label opts_enabled = None \<and>
   \<not> useLabelWrapper (fst (taskLists initial_globals (Some opts_enabled))) \<and>
   children (github_task_lists (fst (taskLists initial_globals (Some opts_enabled)))
       (snd (taskLists initial_globals (Some opts_enabled))) same_draw doc_one_item ! 3)
     = Some [make_checkbox ''<input class="task-list-item-checkbox"  type="checkbox" >'',
             text_token '' A'']\<close>
  by code_simp

subsection \<open>C5: the class of the list\<close>

text \<open>
  C5 says that the class attribute of the list contains the list class exactly once. The pass
  joins the class once for every matched item: for the list of \<^verbatim>\<open>- [ ] A\<close> and \<^verbatim>\<open>- [x] B\<close> the
  attribute holds the class twice.
\<close>

theorem list_class_joined_per_item:
  "attrs (github_task_lists initial_globals defaultClasses same_draw doc_two_items ! 0)
     = [(''class'', ''contains-task-list contains-task-list'')]"
  by code_simp

subsection \<open>C6: later paragraphs of an item\<close>

text \<open>
  C6 as stated fails: the middle loop does not stop after the first paragraph. In an item with
  the paragraphs \<^verbatim>\<open>A\<close> and \<^verbatim>\<open>[ ] B\<close> the inline token of the second paragraph is transformed.
\<close>

theorem second_paragraph_counterexample:
  \<open>github_task_lists initial_globals defaultClasses same_draw doc_two_paragraphs ! 6
     = Token ''inline'' '''' [] '' B''
         (Some [make_checkbox ''<label class="task-list-item-label" for="task-item-5"><input class="task-list-item-checkbox"  disabled  type="checkbox"  id="task-item-5"></label>'',
                text_token '' B'']) \<and>
   github_task_lists initial_globals defaultClasses same_draw doc_two_paragraphs ! 6 \<noteq> doc_two_paragraphs ! 6\<close>
  by code_simp

text \<open>
  C6, amended: for every list item that the outer scan reaches with its list flag set, the
  inline token directly after any paragraph open token that lies between the item's open token
  and the first list item close token after it is tested against the marker prefixes, not only
  the one of the first paragraph: when its text starts with a marker and it has at least one
  child, it is transformed, and it receives exactly one checkbox in front of its children.
\<close>

theorem later_paragraph_injected:
  assumes "insideList_after False pre" and "ttype lio = ''list_item_open''"
    and "\<forall>t \<in> set mid. ttype t \<noteq> ''list_item_close''"
    and "ttype po = ''paragraph_open''" and "ttype inl = ''inline''"
    and "startsWithTodoMarkdown (content inl)" and "children inl = Some (c # cs)"
  shows "\<exists>n. github_task_lists g cls rnd (pre @ lio # mid @ po # inl # rest) ! (length pre + length mid + 2)
              = Token ''inline'' (tag inl) (attrs inl) (drop 3 (content inl))
                  (Some (make_checkbox (checkbox_content g cls (checked_marker (content inl)) (rnd n))
                         # set_content (drop 3 (content c)) c # cs))"
  using pass_injects [OF assms, of g cls rnd rest] assms(5,7) by (auto simp: injected_def)

theorem later_paragraph_injected_witness:
  "insideList_after False [ul_open] \<and> ttype li_open = ''list_item_open'' \<and>
   ttype p_open \<noteq> ''list_item_close'' \<and> ttype (inline_token ''A'') \<noteq> ''list_item_close'' \<and>
   ttype p_close \<noteq> ''list_item_close'' \<and>
   ttype p_open = ''paragraph_open'' \<and> ttype (inline_token ''[ ] B'') = ''inline'' \<and>
   startsWithTodoMarkdown (content (inline_token ''[ ] B'')) \<and>
   children (inline_token ''[ ] B'') = Some (text_token ''[ ] B'' # []) \<and>
   (\<exists>n. github_task_lists initial_globals defaultClasses same_draw
          ([ul_open] @ li_open # [p_open, inline_token ''A'', p_close] @ p_open # inline_token ''[ ] B''
             # [p_close, li_close, ul_close])
            ! (length [ul_open] + length [p_open, inline_token ''A'', p_close] + 2)
        = Token ''inline'' (tag (inline_token ''[ ] B'')) (attrs (inline_token ''[ ] B''))
            (drop 3 (content (inline_token ''[ ] B'')))
            (Some (make_checkbox (checkbox_content initial_globals defaultClasses
                                    (checked_marker (content (inline_token ''[ ] B''))) (same_draw n))
                   # set_content (drop 3 (content (text_token ''[ ] B''))) (text_token ''[ ] B'') # [])))"
proof -
  have h1: "insideList_after False [ul_open]" by (simp add: ul_open_def block_token_def)
  have h2: "ttype li_open = ''list_item_open''" by (simp add: li_open_def block_token_def)
  have h3': "ttype p_open \<noteq> ''list_item_close'' \<and> ttype (inline_token ''A'') \<noteq> ''list_item_close'' \<and>
             ttype p_close \<noteq> ''list_item_close''"
    by (simp add: p_open_def p_close_def block_token_def inline_token_def)
  then have h3: "\<forall>t \<in> set [p_open, inline_token ''A'', p_close]. ttype t \<noteq> ''list_item_close''"
    by simp
  have h4: "ttype p_open = ''paragraph_open''" by (simp add: p_open_def block_token_def)
  have h5: "ttype (inline_token ''[ ] B'') = ''inline''" by (simp add: inline_token_def)
  have h6: "startsWithTodoMarkdown (content (inline_token ''[ ] B''))"
    by (simp add: inline_token_def startsWithTodoMarkdown_def)
  have h7: "children (inline_token ''[ ] B'') = Some (text_token ''[ ] B'' # [])"
    by (simp add: inline_token_def)
  from later_paragraph_injected [OF h1 h2 h3 h4 h5 h6 h7] h1 h2 h3' h4 h5 h6 h7
  show ?thesis by blast
qed

subsection \<open>C7: the checked attribute\<close>

text \<open>
  C7 as stated fails for the unchecked marker: the class names are written into the markup as
  they are. Registered with the checkbox class \<^verbatim>\<open>todo" checked="\<close>, the pass over \<^verbatim>\<open>- [ ] A\<close> emits an
  input element that carries the checked attribute.
\<close>

theorem unchecked_checkbox_checked_counterexample:
  "take 4 (content (doc_one_item ! 3)) = ''[ ] '' \<and>
   github_task_lists (fst (taskLists initial_globals (Some opts_quoted_class)))
       (snd (taskLists initial_globals (Some opts_quoted_class))) same_draw doc_one_item ! 3
     = Token ''inline'' '''' [] '' A''
         (Some [Token ''html_inline'' '''' [] quoted_class_markup None, text_token '' A'']) \<and>
   carries_checked quoted_class_markup"
  by code_simp

text \<open>
  C7, amended: for every list item that the outer scan reaches with its list flag set, whose
  first paragraph's inline token has at least one child and a text that starts with one of the
  three markers, the pass puts one new leaf in front of the token's children, an
  \<^verbatim>\<open>html_inline\<close> token whose content is an input element of type checkbox. When the text starts
  with \<^verbatim>\<open>[x] \<close> or \<^verbatim>\<open>[X] \<close>, that markup carries the checked attribute; when it starts with
  \<^verbatim>\<open>[ ] \<close> and the configured class names contain no double quote, it does not.
\<close>

theorem reached_checkbox_checked_iff_marker:
  assumes "insideList_after False pre" and "ttype lio = ''list_item_open''"
    and "ttype po = ''paragraph_open''" and "ttype inl = ''inline''"
    and "take 4 (content inl) = ''[x] '' \<or> take 4 (content inl) = ''[X] '' \<or>
         take 4 (content inl) = ''[ ] ''"
    and "children inl = Some (c # cs)"
  shows "\<exists>cb. children (github_task_lists g cls rnd (pre @ lio # po # inl # rest) ! (length pre + 2))
                 = Some (cb # set_content (drop 3 (content c)) c # cs) \<and>
              ttype cb = ''html_inline'' \<and> children cb = None \<and> is_checkbox_input (content cb) \<and>
              (take 4 (content inl) = ''[x] '' \<or> take 4 (content inl) = ''[X] ''
                 \<longrightarrow> carries_checked (content cb)) \<and>
              (take 4 (content inl) = ''[ ] '' \<and> quote_free cls
                 \<longrightarrow> \<not> carries_checked (content cb))"
proof -
  have m: "startsWithTodoMarkdown (content inl)"
    using assms(5) by (auto simp: startsWithTodoMarkdown_def)
  have "injected g cls rnd inl
          (github_task_lists g cls rnd (pre @ lio # [] @ po # inl # rest)
             ! (length pre + length ([]::token list) + 2))"
    using assms(1-4) m assms(6) by (intro pass_injects) auto
  then obtain n where ch:
    "children (github_task_lists g cls rnd (pre @ lio # po # inl # rest) ! (length pre + 2))
       = Some (make_checkbox (checkbox_content g cls (checked_marker (content inl)) (rnd n))
               # set_content (drop 3 (content c)) c # cs)"
    using assms(6) by (auto simp: injected_def)
  let ?cb = "make_checkbox (checkbox_content g cls (checked_marker (content inl)) (rnd n))"
  have sel: "ttype ?cb = ''html_inline''" "children ?cb = None"
    "content ?cb = checkbox_content g cls (checked_marker (content inl)) (rnd n)"
    by (simp_all add: make_checkbox_def)
  have inp: "is_checkbox_input (content ?cb)"
    unfolding sel by (rule checkbox_is_input)
  have pos: "take 4 (content inl) = ''[x] '' \<or> take 4 (content inl) = ''[X] ''
               \<longrightarrow> carries_checked (content ?cb)"
    unfolding sel using marker_checked [of "content inl"] checked_carries by auto
  have neg: "take 4 (content inl) = ''[ ] '' \<and> quote_free cls \<longrightarrow> \<not> carries_checked (content ?cb)"
    unfolding sel using marker_unchecked [of "content inl"] unchecked_not_carries by auto
  show ?thesis
    by (rule exI [of _ ?cb]) (use ch sel(1,2) inp pos neg in blast)
qed

theorem reached_checkbox_checked_iff_marker_witness:
  "(\<exists>cb. children (github_task_lists initial_globals defaultClasses same_draw
                      ([ul_open] @ li_open # p_open # inline_token ''[X] B'' # [p_close, li_close, ul_close])
                    ! (length [ul_open] + 2))
            = Some (cb # set_content (drop 3 (content (text_token ''[X] B''))) (text_token ''[X] B'') # []) \<and>
          ttype cb = ''html_inline'' \<and> children cb = None \<and> is_checkbox_input (content cb) \<and>
          carries_checked (content cb)) \<and>
   (\<exists>cb. children (github_task_lists initial_globals defaultClasses same_draw
                      ([ul_open] @ li_open # p_open # inline_token ''[ ] A'' # [p_close, li_close, ul_close])
                    ! (length [ul_open] + 2))
            = Some (cb # set_content (drop 3 (content (text_token ''[ ] A''))) (text_token ''[ ] A'') # []) \<and>
          ttype cb = ''html_inline'' \<and> children cb = None \<and> is_checkbox_input (content cb) \<and>
          \<not> carries_checked (content cb))"
proof -
  have h1: "insideList_after False [ul_open]" by (simp add: ul_open_def block_token_def)
  have h2: "ttype li_open = ''list_item_open''" by (simp add: li_open_def block_token_def)
  have h3: "ttype p_open = ''paragraph_open''" by (simp add: p_open_def block_token_def)
  have x4: "ttype (inline_token ''[X] B'') = ''inline''" by (simp add: inline_token_def)
  have x5: "take 4 (content (inline_token ''[X] B'')) = ''[x] '' \<or>
            take 4 (content (inline_token ''[X] B'')) = ''[X] '' \<or>
            take 4 (content (inline_token ''[X] B'')) = ''[ ] ''"
    by (simp add: inline_token_def)
  have x6: "children (inline_token ''[X] B'') = Some (text_token ''[X] B'' # [])"
    by (simp add: inline_token_def)
  have xm: "take 4 (content (inline_token ''[X] B'')) = ''[X] ''" by (simp add: inline_token_def)
  have u4: "ttype (inline_token ''[ ] A'') = ''inline''" by (simp add: inline_token_def)
  have u5: "take 4 (content (inline_token ''[ ] A'')) = ''[x] '' \<or>
            take 4 (content (inline_token ''[ ] A'')) = ''[X] '' \<or>
            take 4 (content (inline_token ''[ ] A'')) = ''[ ] ''"
    by (simp add: inline_token_def)
  have u6: "children (inline_token ''[ ] A'') = Some (text_token ''[ ] A'' # [])"
    by (simp add: inline_token_def)
  have um: "take 4 (content (inline_token ''[ ] A'')) = ''[ ] ''" by (simp add: inline_token_def)
  have qf: "quote_free defaultClasses" by (simp add: quote_free_def defaultClasses_def)
  from reached_checkbox_checked_iff_marker [OF h1 h2 h3 x4 x5 x6, of initial_globals defaultClasses same_draw
         "[p_close, li_close, ul_close]"] xm
  have a: "\<exists>cb. children (github_task_lists initial_globals defaultClasses same_draw
                      ([ul_open] @ li_open # p_open # inline_token ''[X] B'' # [p_close, li_close, ul_close])
                    ! (length [ul_open] + 2))
            = Some (cb # set_content (drop 3 (content (text_token ''[X] B''))) (text_token ''[X] B'') # []) \<and>
          ttype cb = ''html_inline'' \<and> children cb = None \<and> is_checkbox_input (content cb) \<and>
          carries_checked (content cb)"
    by blast
  from reached_checkbox_checked_iff_marker [OF h1 h2 h3 u4 u5 u6, of initial_globals defaultClasses same_draw
         "[p_close, li_close, ul_close]"] um qf
  have b: "\<exists>cb. children (github_task_lists initial_globals defaultClasses same_draw
                      ([ul_open] @ li_open # p_open # inline_token ''[ ] A'' # [p_close, li_close, ul_close])
                    ! (length [ul_open] + 2))
            = Some (cb # set_content (drop 3 (content (text_token ''[ ] A''))) (text_token ''[ ] A'') # []) \<and>
          ttype cb = ''html_inline'' \<and> children cb = None \<and> is_checkbox_input (content cb) \<and>
          \<not> carries_checked (content cb)"
    by blast
  from a b show ?thesis by (rule conjI)
qed

subsection \<open>C8: identifiers\<close>

text \<open>
  C8 says that no two checkboxes of one pass share an identifier. The identifier is a random
  integer drawn for each checkbox: in a run where two draws give the same integer, the two
  checkboxes of \<^verbatim>\<open>- [ ] A\<close> and \<^verbatim>\<open>- [x] B\<close> carry the same \<^verbatim>\<open>id\<close>, and both labels point to it.
\<close>

theorem equal_draws_equal_ids:
  \<open>same_draw 0 = same_draw 1 \<and>
   children (github_task_lists initial_globals defaultClasses same_draw doc_two_items ! 3)
     = Some [make_checkbox ''<label class="task-list-item-label" for="task-item-5"><input class="task-list-item-checkbox"  disabled  type="checkbox"  id="task-item-5"></label>'',
             text_token '' A''] \<and>
   children (github_task_lists initial_globals defaultClasses same_draw doc_two_items ! 8)
     = Some [make_checkbox ''<label class="task-list-item-label" for="task-item-5"><input class="task-list-item-checkbox"  disabled  type="checkbox" checked=""  id="task-item-5"></label>'',
             text_token '' B'']\<close>
  by code_simp

subsection \<open>C9: the token sequence\<close>

text \<open>
  C9: for every token sequence the pass keeps the length of the top-level sequence and, position
  by position, the type and the tag of every token. Every token of the result is the input
  token at the same position, either retained (only the attributes of a list item's or a list's
  open token may have changed) or injected (an inline token that received one new leaf as its
  first child, with its content and its first child's content sliced).
\<close>

theorem pass_preserves_token_sequence:
  "length (github_task_lists g cls rnd ts) = length ts \<and>
   map ttype (github_task_lists g cls rnd ts) = map ttype ts \<and>
   map tag (github_task_lists g cls rnd ts) = map tag ts \<and>
   list_all2 (evolved g cls rnd) ts (github_task_lists g cls rnd ts)"
proof -
  let ?out = "github_task_lists g cls rnd ts"
  have inv: "Inv g cls rnd ts ?out" by (rule Inv_pass)
  have len: "length ?out = length ts" by (rule Inv_length [OF inv])
  have "\<forall>i<length ts. ttype (?out ! i) = ttype (ts ! i) \<and> tag (?out ! i) = tag (ts ! i)"
    using Inv_nth [OF inv] by (auto dest: evolved_ttype evolved_tag)
  then have "map ttype ?out = map ttype ts" "map tag ?out = map tag ts"
    using len by (auto intro: nth_equalityI)
  then show ?thesis using len inv by (simp add: Inv_def)
qed

subsection \<open>C10: list items after a closed list\<close>

text \<open>
  C10: from a \<^verbatim>\<open>bullet_list_close\<close> token on, whatever the flag was, the outer loop runs with the
  flag cleared over every token up to the next \<^verbatim>\<open>bullet_list_open\<close> and leaves the state as it
  is, so that it starts no search from any \<^verbatim>\<open>list_item_open\<close> among them. In particular, in
  every token sequence, a list item whose open token follows the close of a list and the close
  of the sibling item around that list comes out of the whole pass as it went in: its open
  token, its paragraph open token and its inline token are unchanged, whatever the text.
\<close>

theorem scan_skips_items_after_list_close:
  "(ttype blc = ''bullet_list_close'' \<and> (\<forall>t \<in> set mid. ttype t \<noteq> ''bullet_list_open'') \<longrightarrow>
      i_loop g cls rnd (length pre) b (pre @ blc # mid @ rest, n)
        = i_loop g cls rnd (length pre + length mid + 1) False (pre @ blc # mid @ rest, n))
   \<and> (ttype blc' = ''bullet_list_close'' \<and> ttype lic = ''list_item_close'' \<and>
      ttype lio = ''list_item_open'' \<and> ttype po = ''paragraph_open'' \<and> tag po = ''p'' \<and>
      ttype inl = ''inline'' \<longrightarrow>
      github_task_lists g cls rnd (pre' @ blc' # lic # lio # po # inl # rest') ! (length pre' + 2) = lio \<and>
      github_task_lists g cls rnd (pre' @ blc' # lic # lio # po # inl # rest') ! (length pre' + 3) = po \<and>
      github_task_lists g cls rnd (pre' @ blc' # lic # lio # po # inl # rest') ! (length pre' + 4) = inl)"
proof (rule conjI; rule impI)
  assume a: "ttype blc = ''bullet_list_close'' \<and> (\<forall>t \<in> set mid. ttype t \<noteq> ''bullet_list_open'')"
  let ?ts = "pre @ blc # mid @ rest"
  have "i_loop g cls rnd (length pre) b (?ts, n) = i_loop g cls rnd (Suc (length pre)) False (?ts, n)"
    using a by (subst i_loop.simps) simp
  also have "\<dots> = i_loop g cls rnd (length pre + length mid + 1) False (?ts, n)"
  proof (rule i_loop_skips)
    show "\<forall>x. Suc (length pre) \<le> x \<and> x < length pre + length mid + 1 \<longrightarrow>
            ttype (fst (?ts, n) ! x) \<noteq> ''bullet_list_open''"
    proof (intro allI impI)
      fix x assume x: "Suc (length pre) \<le> x \<and> x < length pre + length mid + 1"
      then have "?ts ! x = mid ! (x - Suc (length pre))"
        by (auto simp: nth_append nth_Cons')
      moreover have "mid ! (x - Suc (length pre)) \<in> set mid" using x by (intro nth_mem) arith
      ultimately show "ttype (fst (?ts, n) ! x) \<noteq> ''bullet_list_open''" using a by simp
    qed
  qed simp_all
  finally show "i_loop g cls rnd (length pre) b (?ts, n)
                  = i_loop g cls rnd (length pre + length mid + 1) False (?ts, n)" .
next
  assume "ttype blc' = ''bullet_list_close'' \<and> ttype lic = ''list_item_close'' \<and>
      ttype lio = ''list_item_open'' \<and> ttype po = ''paragraph_open'' \<and> tag po = ''p'' \<and>
      ttype inl = ''inline''"
  then show "github_task_lists g cls rnd (pre' @ blc' # lic # lio # po # inl # rest') ! (length pre' + 2) = lio \<and>
      github_task_lists g cls rnd (pre' @ blc' # lic # lio # po # inl # rest') ! (length pre' + 3) = po \<and>
      github_task_lists g cls rnd (pre' @ blc' # lic # lio # po # inl # rest') ! (length pre' + 4) = inl"
    by (intro pass_skips_item_after_sublist) simp_all
qed

theorem scan_skips_items_after_list_close_witness:
  "((ttype ul_close = ''bullet_list_close'' \<and>
     ttype li_close \<noteq> ''bullet_list_open'' \<and> ttype li_open \<noteq> ''bullet_list_open'' \<and>
     ttype p_open \<noteq> ''bullet_list_open'' \<and> ttype (inline_token ''[ ] B'') \<noteq> ''bullet_list_open'' \<and>
     ttype p_close \<noteq> ''bullet_list_open'') \<and>
      i_loop initial_globals defaultClasses same_draw (length sublist_prefix) True
        (sublist_prefix @ ul_close # [li_close, li_open, p_open, inline_token ''[ ] B'', p_close, li_close]
           @ [ul_close], 0)
        = i_loop initial_globals defaultClasses same_draw
            (length sublist_prefix + length [li_close, li_open, p_open, inline_token ''[ ] B'', p_close, li_close] + 1)
            False
            (sublist_prefix @ ul_close # [li_close, li_open, p_open, inline_token ''[ ] B'', p_close, li_close]
               @ [ul_close], 0))
   \<and> ((ttype ul_close = ''bullet_list_close'' \<and> ttype li_close = ''list_item_close'' \<and>
      ttype li_open = ''list_item_open'' \<and> ttype p_open = ''paragraph_open'' \<and> tag p_open = ''p'' \<and>
      ttype (inline_token ''[ ] B'') = ''inline'') \<and>
      github_task_lists initial_globals defaultClasses same_draw
         (sublist_prefix @ ul_close # li_close # li_open # p_open # inline_token ''[ ] B''
            # [p_close, li_close, ul_close]) ! (length sublist_prefix + 2) = li_open \<and>
      github_task_lists initial_globals defaultClasses same_draw
         (sublist_prefix @ ul_close # li_close # li_open # p_open # inline_token ''[ ] B''
            # [p_close, li_close, ul_close]) ! (length sublist_prefix + 3) = p_open \<and>
      github_task_lists initial_globals defaultClasses same_draw
         (sublist_prefix @ ul_close # li_close # li_open # p_open # inline_token ''[ ] B''
            # [p_close, li_close, ul_close]) ! (length sublist_prefix + 4) = inline_token ''[ ] B'')"
proof -
  have h1': "ttype ul_close = ''bullet_list_close'' \<and>
     ttype li_close \<noteq> ''bullet_list_open'' \<and> ttype li_open \<noteq> ''bullet_list_open'' \<and>
     ttype p_open \<noteq> ''bullet_list_open'' \<and> ttype (inline_token ''[ ] B'') \<noteq> ''bullet_list_open'' \<and>
     ttype p_close \<noteq> ''bullet_list_open''"
    by (simp add: ul_close_def li_close_def li_open_def p_open_def p_close_def block_token_def
          inline_token_def)
  then have h1: "ttype ul_close = ''bullet_list_close'' \<and>
     (\<forall>t \<in> set [li_close, li_open, p_open, inline_token ''[ ] B'', p_close, li_close].
          ttype t \<noteq> ''bullet_list_open'')"
    by simp
  have h2: "ttype ul_close = ''bullet_list_close'' \<and> ttype li_close = ''list_item_close'' \<and>
      ttype li_open = ''list_item_open'' \<and> ttype p_open = ''paragraph_open'' \<and> tag p_open = ''p'' \<and>
      ttype (inline_token ''[ ] B'') = ''inline''"
    by (simp add: ul_close_def li_close_def li_open_def p_open_def block_token_def inline_token_def)
  from scan_skips_items_after_list_close
         [of ul_close "[li_close, li_open, p_open, inline_token ''[ ] B'', p_close, li_close]"
             initial_globals defaultClasses same_draw sublist_prefix True "[ul_close]" 0
             ul_close li_close li_open p_open "inline_token ''[ ] B''" sublist_prefix
             "[p_close, li_close, ul_close]"]
       h1 h1' h2
  show ?thesis by blast
qed

end
